theory Spec2Isabelle
  imports Complex_Main
begin

section \<open>Pedigree utilities of msprime (\<^verbatim>\<open>msprime/pedigrees.py\<close>)\<close>

text \<open>
  A shallow embedding of \<^verbatim>\<open>pedigrees.py\<close>. Python integers are \<open>int\<close>, positions in
  an array are \<open>nat\<close>, a float64 value is a \<open>real\<close> (no arithmetic is done on times, they
  are only stored and compared). Every \<^verbatim>\<open>raise\<close> of the source, and every failing array
  access, is a value of \<open>error\<close>.
\<close>

subsection \<open>Errors\<close>

datatype reason =
    PloidyConflict nat nat        \<comment> \<open>Ploidy .. conflicts with number of parents ..\<close>
  | IdsNotPositive                \<comment> \<open>Individual IDs must be > 0\<close>
  | ZeroSizeReduction             \<comment> \<open>numpy: minimum of a zero-size array\<close>
  | MustSpecifyOne                \<comment> \<open>Must specify one of num_samples of sample_IDs\<close>
  | CannotSpecifyBoth             \<comment> \<open>Cannot specify both samples and num_samples.\<close>
  | TooManySamples int nat        \<comment> \<open>Cannot specify more samples (..) than there are probands (..)\<close>
  | NegativeSize                  \<comment> \<open>numpy: negative dimensions are not allowed\<close>
  | SampleSizeMismatch            \<comment> \<open>Sample size mismatch - duplicate sample IDs or ..\<close>
  | TimeOrder int int             \<comment> \<open>Ind .. has time >= than parent ..\<close>
  | MustSpecifyParents            \<comment> \<open>Must specify either parent IDs or parent indices\<close>
  | ReservedZero                  \<comment> \<open>Invalid ID: 0 reserved ..\<close>
  | NonSequentialColumns          \<comment> \<open>Non-sequential columns in pedigree format\<close>
  | ShapeMismatch                 \<comment> \<open>numpy: shape mismatch in an indexed assignment\<close>
  | DuplicatePlinkId              \<comment> \<open>Duplicate PLINK ID\<close>
  | InvalidLiteral                \<comment> \<open>\<^verbatim>\<open>int()\<close> of a string that is no integer literal\<close>
  | BadSex                        \<comment> \<open>Sex must be one of the following: 0, 1, 2\<close>

datatype error =
    NotImplementedError
  | ValueError reason
  | IndexError
  | KeyError
  | TypeError

subsection \<open>Two-dimensional arrays\<close>

text \<open>
  A numpy matrix is its list of rows together with its number of columns
  (\<^verbatim>\<open>shape[1]\<close>), which the rows alone do not determine when there are none.
\<close>

record 'a matrix =
  ncols :: nat
  rows :: "'a list list"

definition rect :: "'a matrix \<Rightarrow> bool" where
  "rect m = list_all (\<lambda>r. length r = ncols m) (rows m)"

definition ravel :: "'a matrix \<Rightarrow> 'a list" where
  "ravel m = concat (rows m)"

subsection \<open>\<^verbatim>\<open>Pedigree.check_times\<close>\<close>

text \<open>
  The inner loop \<^verbatim>\<open>for parent_ix in parents[i]\<close>: \<open>ind\<close> is the identifier of individual
  \<open>i\<close>. The reads \<^verbatim>\<open>time[i]\<close>, \<^verbatim>\<open>time[parent_ix]\<close> and \<^verbatim>\<open>individual[parent_ix]\<close> raise
  when out of range.
\<close>

fun check_parents :: "int list \<Rightarrow> ('t::linorder) list \<Rightarrow> int \<Rightarrow> nat \<Rightarrow> int list \<Rightarrow> error + unit" where
  "check_parents idv tms ind i [] = Inr ()"
| "check_parents idv tms ind i (parent_ix # rest) =
     (if parent_ix \<ge> 0 then
        (if i \<ge> length tms then Inl IndexError
         else if nat parent_ix \<ge> length tms then Inl IndexError
         else if tms ! i \<ge> tms ! nat parent_ix then
           (if nat parent_ix \<ge> length idv then Inl IndexError
            else Inl (ValueError (TimeOrder ind (idv ! nat parent_ix))))
         else check_parents idv tms ind i rest)
      else check_parents idv tms ind i rest)"

text \<open>The outer loop \<^verbatim>\<open>for i, ind in enumerate(individual)\<close>, entered at position \<open>i\<close>.\<close>

fun check_from :: "int list \<Rightarrow> int list list \<Rightarrow> ('t::linorder) list \<Rightarrow> nat \<Rightarrow> int list \<Rightarrow> error + unit" where
  "check_from individual ps time i [] = Inr ()"
| "check_from individual ps time i (ind # inds) =
     (if i \<ge> length ps then Inl IndexError
      else (case check_parents individual time ind i (ps ! i) of
              Inl e \<Rightarrow> Inl e
            | Inr _ \<Rightarrow> check_from individual ps time (Suc i) inds))"

definition check_times :: "int list \<Rightarrow> int matrix \<Rightarrow> ('t::linorder) list \<Rightarrow> error + unit" where
  "check_times individual parents time = check_from individual (rows parents) time 0 individual"

text \<open>
  The shape a parent-index matrix has in the data model: one row per individual, every
  entry either negative (the sentinel is \<open>-1\<close>) or a position below \<open>n\<close>.
\<close>

definition index_matrix :: "nat \<Rightarrow> int matrix \<Rightarrow> bool" where
  "index_matrix n par =
     (length (rows par) = n \<and> list_all (list_all (\<lambda>p. p < int n)) (rows par))"

text \<open>A violated edge: slot \<open>k\<close> of individual \<open>i\<close> holds a parent that is not older.\<close>

definition violation :: "int matrix \<Rightarrow> ('t::linorder) list \<Rightarrow> nat \<Rightarrow> nat \<Rightarrow> bool" where
  "violation par tms i k =
     (i < length (rows par) \<and> k < length (rows par ! i) \<and> rows par ! i ! k \<ge> 0 \<and>
      tms ! i \<ge> tms ! nat (rows par ! i ! k))"


subsection \<open>numpy conversions\<close>

text \<open>
  \<^verbatim>\<open>astype(np.int32)\<close>: a float is truncated toward zero, an integer outside the 32-bit
  range wraps around. \<^verbatim>\<open>astype(np.uint32)\<close> wraps into the unsigned range.
\<close>

definition wrap32 :: "int \<Rightarrow> int" where
  "wrap32 x = (x + 2 ^ 31) mod 2 ^ 32 - 2 ^ 31"

definition trunc :: "real \<Rightarrow> int" where
  "trunc x = (if x \<ge> 0 then \<lfloor>x\<rfloor> else \<lceil>x\<rceil>)"

definition astype_int32 :: "real \<Rightarrow> int" where
  "astype_int32 x = wrap32 (trunc x)"

definition astype_uint32 :: "int \<Rightarrow> nat" where
  "astype_uint32 x = nat (x mod 2 ^ 32)"

text \<open>\<^verbatim>\<open>np.min\<close> of a one-dimensional array; numpy raises on a zero-size array.\<close>

definition np_min :: "('a::linorder) list \<Rightarrow> error + 'a" where
  "np_min xs = (case xs of [] \<Rightarrow> Inl (ValueError ZeroSizeReduction)
                | x # rest \<Rightarrow> Inr (fold min rest x))"

subsection \<open>The \<^verbatim>\<open>Pedigree\<close> class\<close>

text \<open>
  The attributes of a \<^verbatim>\<open>Pedigree\<close>. \<open>is_sample\<close> is \<^verbatim>\<open>None\<close> until sample flags are
  given; the attributes \<open>samples\<close> and \<open>num_samples\<close> do not exist before they are first
  assigned, which is \<open>None\<close> here.
\<close>

record pedigree =
  individual :: "int list"
  num_individuals :: nat
  parents :: "int matrix"
  time :: "real list"
  sex :: "unit option"
  ploidy :: int
  is_sample :: "nat list option"
  samples :: "int list option"
  num_samples :: "int option"

text \<open>
  \<^verbatim>\<open>Pedigree.__init__\<close>. The identifier array may hold floats (as when it is a column of
  a loaded matrix), so it is a list of reals; the checks are made on the arguments as
  given, before the conversions.
\<close>

definition init ::
  "real list \<Rightarrow> int matrix \<Rightarrow> real list \<Rightarrow> int list option \<Rightarrow> unit option \<Rightarrow> int
     \<Rightarrow> error + pedigree" where
  "init individual' parents' time' is_sample' sex' ploidy' =
     (if ploidy' \<noteq> 2 then Inl NotImplementedError
      else if sex' \<noteq> None then Inl NotImplementedError
      else if int (ncols parents') \<noteq> ploidy' then
        Inl (ValueError (PloidyConflict (nat ploidy') (ncols parents')))
      else (case np_min individual' of
              Inl e \<Rightarrow> Inl e
            | Inr m \<Rightarrow>
                if m \<le> 0 then Inl (ValueError IdsNotPositive)
                else Inr \<lparr>
                  individual = map astype_int32 individual',
                  num_individuals = length individual',
                  parents = \<lparr>ncols = ncols parents', rows = map (map wrap32) (rows parents')\<rparr>,
                  time = time',
                  sex = sex',
                  ploidy = ploidy',
                  is_sample = map_option (map astype_uint32) is_sample',
                  samples = map_option (filter (\<lambda>x. x = 1)) is_sample',
                  num_samples = map_option (\<lambda>s. int (length (filter (\<lambda>x. x = 1) s))) is_sample'
                \<rparr>))"

text \<open>
  \<^verbatim>\<open>set(all_indices).difference(parents.ravel())\<close>, for \<open>n\<close> individuals: the positions
  that occur nowhere in the parent matrix, in ascending order (the order
  \<^verbatim>\<open>get_proband_indices\<close> returns; where the source iterates over the set itself, the
  order of the visit does not change what is computed).
\<close>

definition probands :: "nat \<Rightarrow> int matrix \<Rightarrow> nat list" where
  "probands n ps = filter (\<lambda>i. int i \<notin> set (ravel ps)) [0..<n]"

definition get_proband_indices :: "pedigree \<Rightarrow> nat list" where
  "get_proband_indices ped = probands (length (individual ped)) (parents ped)"

text \<open>
  \<^verbatim>\<open>np.random.choice(pool, size=k, replace=False)\<close>. The process-wide generator is an
  arbitrary sequence \<open>rng\<close> of naturals: each draw takes one position of the remaining
  pool and removes it, so every outcome numpy can produce is the outcome of some \<open>rng\<close>.
  The caller has already checked \<open>k \<le> length pool\<close>.
\<close>

fun choice_no_replace :: "(nat \<Rightarrow> nat) \<Rightarrow> nat \<Rightarrow> 'a list \<Rightarrow> 'a list" where
  "choice_no_replace rng 0 pool = []"
| "choice_no_replace rng (Suc k) pool =
     (let j = rng k mod length pool
      in pool ! j # choice_no_replace rng k (take j pool @ drop (Suc j) pool))"

text \<open>\<^verbatim>\<open>flags[sample_indices] = 1\<close>, which raises on a position outside the array.\<close>

fun set_ones :: "nat list \<Rightarrow> nat list \<Rightarrow> error + nat list" where
  "set_ones flags [] = Inr flags"
| "set_ones flags (i # idxs) =
     (if i \<ge> length flags then Inl IndexError else set_ones (flags[i := 1]) idxs)"

text \<open>
  \<^verbatim>\<open>[i for i in indices if self.individual[i] in sample_set]\<close>; the read
  \<^verbatim>\<open>self.individual[i]\<close> raises out of range.
\<close>

fun ids_to_indices :: "int list \<Rightarrow> int set \<Rightarrow> nat list \<Rightarrow> error + nat list" where
  "ids_to_indices inds sample_set [] = Inr []"
| "ids_to_indices inds sample_set (i # idxs) =
     (if i \<ge> length inds then Inl IndexError
      else (case ids_to_indices inds sample_set idxs of
              Inl e \<Rightarrow> Inl e
            | Inr r \<Rightarrow> Inr (if inds ! i \<in> sample_set then i # r else r)))"

text \<open>
  The tail of \<^verbatim>\<open>set_samples\<close>, shared by its two branches: the length check and the
  assignment of the flags. \<open>ped\<close> already has the zeroed flags and the stored count.
\<close>

definition finish_samples :: "pedigree \<Rightarrow> nat list \<Rightarrow> error option \<times> pedigree" where
  "finish_samples ped sample_indices =
     (if Some (int (length sample_indices)) \<noteq> num_samples ped then
        (Some (ValueError SampleSizeMismatch), ped)
      else (case set_ones (the (is_sample ped)) sample_indices of
              Inl e \<Rightarrow> (Some e, ped)
            | Inr flags \<Rightarrow> (None, ped\<lparr>is_sample := Some flags\<rparr>)))"

text \<open>
  \<^verbatim>\<open>Pedigree.set_samples\<close>. The method mutates the object, so the model returns the
  object as the call leaves it, with the error raised (if any). After the two argument
  checks the flag vector is replaced by zeros and the count is stored, and only then the
  request is compared with the probands.

  Where the pool of probands is empty and \<open>k = 0\<close>, numpy's \<^verbatim>\<open>choice\<close> returns an empty
  array of floats, which the final indexed assignment rejects with an IndexError.
\<close>

definition set_samples ::
  "int option \<Rightarrow> int list option \<Rightarrow> bool \<Rightarrow> (nat \<Rightarrow> nat) \<Rightarrow> pedigree
     \<Rightarrow> error option \<times> pedigree" where
  "set_samples num_samples' sample_IDs probands_only rng ped =
     (if \<not> probands_only then (Some NotImplementedError, ped)
      else if num_samples' = None \<and> sample_IDs = None then
        (Some (ValueError MustSpecifyOne), ped)
      else if num_samples' \<noteq> None \<and> sample_IDs \<noteq> None then
        (Some (ValueError CannotSpecifyBoth), ped)
      else
        (let ped1 = ped\<lparr>is_sample := Some (replicate (num_individuals ped) 0)\<rparr>;
             proband_indices = probands (length (individual ped)) (parents ped)
         in (case num_samples' of
               Some k \<Rightarrow>
                 (let ped2 = ped1\<lparr>num_samples := Some k\<rparr>
                  in if k > int (length proband_indices) then
                       (Some (ValueError (TooManySamples k (length proband_indices))), ped2)
                     else if k < 0 then (Some (ValueError NegativeSize), ped2)
                     else if proband_indices = [] then (Some IndexError, ped2)
                     else finish_samples ped2
                            (choice_no_replace rng (nat k) proband_indices))
             | None \<Rightarrow>
                 (let ids = the sample_IDs;
                      ped2 = ped1\<lparr>num_samples := Some (int (length ids))\<rparr>
                  in (case ids_to_indices (individual ped) (set ids) proband_indices of
                        Inl e \<Rightarrow> (Some e, ped2)
                      | Inr sample_indices \<Rightarrow> finish_samples ped2 sample_indices)))))"


subsection \<open>Identifier and index translation\<close>

text \<open>
  \<^verbatim>\<open>dict(zip(individual, range(n_inds)))\<close>: the pairs are stored one after the other, a
  later pair replacing an earlier one with the same key.
\<close>

definition dict_of :: "('k \<times> 'v) list \<Rightarrow> ('k \<rightharpoonup> 'v)" where
  "dict_of kvs = fold (\<lambda>(k, v) m. m(k \<mapsto> v)) kvs Map.empty"

text \<open>A loop that stops at the first element on which \<open>f\<close> raises.\<close>

fun map_err :: "('a \<Rightarrow> error + 'b) \<Rightarrow> 'a list \<Rightarrow> error + 'b list" where
  "map_err f [] = Inr []"
| "map_err f (x # xs) =
     (case f x of
        Inl e \<Rightarrow> Inl e
      | Inr y \<Rightarrow> (case map_err f xs of Inl e \<Rightarrow> Inl e | Inr ys \<Rightarrow> Inr (y # ys)))"

text \<open>
  \<^verbatim>\<open>Pedigree.parent_ID_to_index\<close>. The lookup \<^verbatim>\<open>ind_to_index_dict[parent_ID]\<close> raises a
  KeyError for an identifier that is not a key.
\<close>

definition parent_ID_to_index :: "int list \<Rightarrow> int matrix \<Rightarrow> error + int matrix" where
  "parent_ID_to_index individual' parent_IDs =
     (let n_inds = length (rows parent_IDs);
          ind_to_index_dict = dict_of (zip individual' (map int [0..<n_inds]))
      in if ind_to_index_dict 0 \<noteq> None then Inl (ValueError ReservedZero)
         else
           (let d = ind_to_index_dict(0 \<mapsto> -1)
            in (case map_err (map_err (\<lambda>parent_ID.
                        case d parent_ID of None \<Rightarrow> Inl KeyError | Some ix \<Rightarrow> Inr ix))
                       (rows parent_IDs) of
                  Inl e \<Rightarrow> Inl e
                | Inr r \<Rightarrow> Inr \<lparr>ncols = ncols parent_IDs, rows = r\<rparr>)))"

text \<open>
  \<^verbatim>\<open>Pedigree.parent_index_to_ID\<close>. A negative index gives the identifier 0; the read
  \<^verbatim>\<open>individual[parents[i, j]]\<close> raises out of range.
\<close>

definition parent_index_to_ID :: "int list \<Rightarrow> int matrix \<Rightarrow> error + int matrix" where
  "parent_index_to_ID individual' parents' =
     (case map_err (map_err (\<lambda>p.
                if p \<ge> 0 then
                  (if nat p \<ge> length individual' then Inl IndexError
                   else Inr (individual' ! nat p))
                else Inr 0))
             (rows parents') of
        Inl e \<Rightarrow> Inl e
      | Inr r \<Rightarrow> Inr \<lparr>ncols = ncols parents', rows = r\<rparr>)"

subsection \<open>\<^verbatim>\<open>Pedigree.get_times\<close>\<close>

text \<open>
  One pass of \<^verbatim>\<open>for c_idx in climber_indices\<close> at level \<open>t\<close>: the time of each climber
  is raised to \<open>t\<close>, and its present parents are appended to \<open>next_climbers\<close>. The reads
  \<^verbatim>\<open>time[c_idx]\<close> and \<^verbatim>\<open>parents[c_idx]\<close> raise out of range. The times are floats that
  only ever hold the integer levels, so they are naturals here.
\<close>

fun sweep :: "int list list \<Rightarrow> nat \<Rightarrow> nat list \<Rightarrow> nat list \<Rightarrow> nat list
                \<Rightarrow> error + (nat list \<times> nat list)" where
  "sweep ps t [] tms next_climbers = Inr (tms, next_climbers)"
| "sweep ps t (c_idx # cs) tms next_climbers =
     (if c_idx \<ge> length tms then Inl IndexError
      else
        (let tms' = (if tms ! c_idx < t then tms[c_idx := t] else tms)
         in if c_idx \<ge> length ps then Inl IndexError
            else sweep ps t cs tms'
                   (next_climbers @ map nat (filter (\<lambda>p. p \<ge> 0) (ps ! c_idx)))))"

text \<open>
  The loop \<^verbatim>\<open>while len(climber_indices) > 0\<close>. It need not terminate, so the result is
  an option: \<open>None\<close> is a climb that runs forever. \<^verbatim>\<open>list(set(next_climbers))\<close> keeps one
  copy of each climber.
\<close>

partial_function (option) climb ::
  "int list list \<Rightarrow> nat list \<Rightarrow> nat list \<Rightarrow> nat \<Rightarrow> (error + nat list) option" where
  "climb ps tms climber_indices t =
     (if climber_indices = [] then Some (Inr tms)
      else (case sweep ps t climber_indices tms [] of
              Inl e \<Rightarrow> Some (Inl e)
            | Inr r \<Rightarrow> climb ps (fst r) (remdups (snd r)) (t + 1)))"

definition get_times ::
  "int list \<Rightarrow> int matrix option \<Rightarrow> int matrix option \<Rightarrow> bool \<Rightarrow> (error + nat list) option" where
  "get_times individual' parent_IDs parents' check =
     (if parents' = None \<and> parent_IDs = None then Some (Inl (ValueError MustSpecifyParents))
      else
        (case (case parents' of
                 None \<Rightarrow> parent_ID_to_index individual' (the parent_IDs)
               | Some p \<Rightarrow> Inr p) of
           Inl e \<Rightarrow> Some (Inl e)
         | Inr ps \<Rightarrow>
             (case climb (rows ps) (replicate (length individual') 0)
                     (probands (length individual') ps) 0 of
                None \<Rightarrow> None
              | Some (Inl e) \<Rightarrow> Some (Inl e)
              | Some (Inr tms) \<Rightarrow>
                  if check then
                    (case check_times individual' ps tms of
                       Inl e \<Rightarrow> Some (Inl e)
                     | Inr u \<Rightarrow> Some (Inr tms))
                  else Some (Inr tms))))"

subsection \<open>The parent relation\<close>

text \<open>
  The edges of the genealogy: \<open>(c, p)\<close> when individual \<open>c\<close> has \<open>p\<close> in one of its parent
  slots. A path of \<open>k\<close> edges from \<open>a\<close> to \<open>v\<close> is \<open>(a, v) \<in> edges ps ^^ k\<close>; the parent
  relation is acyclic when no individual is its own ancestor, \<open>acyclic (edges ps)\<close>.
\<close>

definition edges :: "int list list \<Rightarrow> (nat \<times> nat) set" where
  "edges ps = {(c, p). c < length ps \<and> int p \<in> set (ps ! c)}"

text \<open>
  \<open>k\<close> is the length of the longest path from any proband to \<open>v\<close>: some proband reaches
  \<open>v\<close> in \<open>k\<close> edges, and none in more.
\<close>

definition longest_path :: "nat \<Rightarrow> int matrix \<Rightarrow> nat \<Rightarrow> nat \<Rightarrow> bool" where
  "longest_path n ps v k =
     ((\<exists>a\<in>set (probands n ps). (a, v) \<in> edges (rows ps) ^^ k) \<and>
      (\<forall>a\<in>set (probands n ps). \<forall>j. (a, v) \<in> edges (rows ps) ^^ j \<longrightarrow> j \<le> k))"

text \<open>A check that suffices for acyclicity: every present parent has a larger position.\<close>

definition parents_later :: "int list list \<Rightarrow> bool" where
  "parents_later ps =
     list_all (\<lambda>(c, row). list_all (\<lambda>p. p < 0 \<or> int c < p) row) (enumerate 0 ps)"

text \<open>
  The individuals that some proband reaches in exactly \<open>t\<close> edges: the wavefront of the
  climb at level \<open>t\<close>.
\<close>

definition frontier :: "nat \<Rightarrow> int matrix \<Rightarrow> nat \<Rightarrow> nat set" where
  "frontier n ps t = (edges (rows ps) ^^ t) `` set (probands n ps)"

text \<open>
  What holds of the times when the loop is entered at level \<open>t\<close>: every level below \<open>t\<close>
  at which an individual was on the wavefront is at most its time, and a time that is
  not 0 is a level below \<open>t\<close> at which the individual was on the wavefront.
\<close>

definition climb_inv :: "nat \<Rightarrow> int matrix \<Rightarrow> nat \<Rightarrow> nat list \<Rightarrow> bool" where
  "climb_inv n ps t tms =
     (length tms = n \<and>
      (\<forall>v<n. (\<forall>s<t. v \<in> frontier n ps s \<longrightarrow> s \<le> tms ! v) \<and>
              (tms ! v \<noteq> 0 \<longrightarrow> tms ! v < t \<and> v \<in> frontier n ps (tms ! v))))"


subsection \<open>Column layout and the numeric matrix\<close>

text \<open>
  \<^verbatim>\<open>Pedigree.default_format\<close>: the dictionary of column positions, in the order of its
  keys.
\<close>

record format =
  col_individual :: nat
  col_parents :: "nat list"
  col_time :: "nat option"
  col_is_sample :: "nat option"
  col_sexes :: "nat option"

definition default_format :: format where
  "default_format = \<lparr>col_individual = 0, col_parents = [1, 2], col_time = Some 3,
                      col_is_sample = None, col_sexes = None\<rparr>"

text \<open>
  The loop over \<^verbatim>\<open>cols.values()\<close> that collects the column numbers: a list extends the
  result, a number is appended, \<^verbatim>\<open>None\<close> is skipped.
\<close>

definition opt_list :: "'a option \<Rightarrow> 'a list" where
  "opt_list v = (case v of None \<Rightarrow> [] | Some c \<Rightarrow> [c])"

definition column_numbers :: "format \<Rightarrow> nat list" where
  "column_numbers cols =
     [col_individual cols] @ col_parents cols @ opt_list (col_time cols) @
     opt_list (col_is_sample cols) @ opt_list (col_sexes cols)"

text \<open>\<^verbatim>\<open>np.zeros((n, c))\<close>, and the column \<^verbatim>\<open>m[:, c]\<close>.\<close>

definition np_zeros :: "nat \<Rightarrow> nat \<Rightarrow> real matrix" where
  "np_zeros n c = \<lparr>ncols = c, rows = replicate n (replicate c 0)\<rparr>"

definition column :: "nat \<Rightarrow> 'a matrix \<Rightarrow> error + 'a list" where
  "column c m = (if c \<ge> ncols m then Inl IndexError else Inr (map (\<lambda>r. r ! c) (rows m)))"

text \<open>
  \<^verbatim>\<open>m[:, c] = vals\<close>: the values must be as many as the rows, or a single value that is
  repeated.
\<close>

definition set_col :: "nat \<Rightarrow> 'a list \<Rightarrow> 'a matrix \<Rightarrow> error + 'a matrix" where
  "set_col c vals m =
     (if c \<ge> ncols m then Inl IndexError
      else
        (let vals' = (if length vals = 1 then replicate (length (rows m)) (hd vals) else vals)
         in if length vals' \<noteq> length (rows m) then Inl (ValueError ShapeMismatch)
            else Inr (m\<lparr>rows := map (\<lambda>(r, v). r[c := v]) (zip (rows m) vals')\<rparr>)))"

text \<open>
  \<^verbatim>\<open>m[:, cs] = v\<close> for a list of columns \<open>cs\<close> and a matrix \<open>v\<close> of values with one
  column per entry of \<open>cs\<close>: \<open>v\<close> must have as many rows as \<open>m\<close>, or a single row that is
  repeated; otherwise numpy cannot broadcast it.
\<close>

definition set_cols :: "nat list \<Rightarrow> 'a matrix \<Rightarrow> 'a matrix \<Rightarrow> error + 'a matrix" where
  "set_cols cs v m =
     (if \<exists>c\<in>set cs. c \<ge> ncols m then Inl IndexError
      else if ncols v \<noteq> length cs then Inl (ValueError ShapeMismatch)
      else
        (let vrows = (if length (rows v) = 1 then replicate (length (rows m)) (hd (rows v))
                      else rows v)
         in if length vrows \<noteq> length (rows m) then Inl (ValueError ShapeMismatch)
            else Inr (m\<lparr>rows := map (\<lambda>(r, vr). fold (\<lambda>(c, x) r'. r'[c := x]) (zip cs vr) r)
                                   (zip (rows m) vrows)\<rparr>)))"

text \<open>\<^verbatim>\<open>m[idx]\<close> for a list of positions: the rows at these positions.\<close>

definition take_rows :: "nat list \<Rightarrow> 'a matrix \<Rightarrow> error + 'a matrix" where
  "take_rows idx m =
     (if \<exists>i\<in>set idx. i \<ge> length (rows m) then Inl IndexError
      else Inr (m\<lparr>rows := map (\<lambda>i. rows m ! i) idx\<rparr>))"

subsection \<open>\<^verbatim>\<open>build_array\<close>, \<^verbatim>\<open>save_npy\<close>, \<^verbatim>\<open>read_npy\<close>\<close>

text \<open>
  \<^verbatim>\<open>Pedigree.build_array\<close>. \<^verbatim>\<open>max(np.diff(col_nums))\<close> is the largest step between
  neighbouring column numbers.
\<close>

definition build_array :: "pedigree \<Rightarrow> error + real matrix" where
  "build_array ped =
     (let cols = default_format;
          col_nums = column_numbers cols;
          n_cols = Max (set col_nums) + 1;
          diffs = map (\<lambda>(a, b). int b - int a) (zip col_nums (tl col_nums))
      in if diffs = [] then Inl (ValueError ZeroSizeReduction)
         else if Max (set diffs) > 1 then Inl (ValueError NonSequentialColumns)
         else
           (case set_col (col_individual cols) (map real_of_int (individual ped))
                   (np_zeros (num_individuals ped) n_cols) of
              Inl e \<Rightarrow> Inl e
            | Inr a1 \<Rightarrow>
                (case set_cols (col_parents cols)
                        \<lparr>ncols = ncols (parents ped),
                         rows = map (map real_of_int) (rows (parents ped))\<rparr> a1 of
                   Inl e \<Rightarrow> Inl e
                 | Inr a2 \<Rightarrow> set_col (the (col_time cols)) (time ped) a2)))"

text \<open>
  \<^verbatim>\<open>save_npy\<close> and \<^verbatim>\<open>read_npy\<close>, called without keyword arguments. The file written by
  \<^verbatim>\<open>np.save\<close> and read by \<^verbatim>\<open>np.load\<close> holds the matrix as it is.
\<close>

definition save_npy :: "pedigree \<Rightarrow> error + real matrix" where
  "save_npy ped = build_array ped"

definition read_npy :: "real matrix \<Rightarrow> error + pedigree" where
  "read_npy pedarray =
     (let cols = default_format
      in (case column (col_individual cols) pedarray of
            Inl e \<Rightarrow> Inl e
          | Inr individual' \<Rightarrow>
              (case map_err (\<lambda>i. column i pedarray) (col_parents cols) of
                 Inl e \<Rightarrow> Inl e
               | Inr pcols \<Rightarrow>
                   (case column (the (col_time cols)) pedarray of
                      Inl e \<Rightarrow> Inl e
                    | Inr time' \<Rightarrow>
                        init individual'
                          \<lparr>ncols = length pcols,
                           rows = map (\<lambda>i. map (\<lambda>pc. trunc (pc ! i)) pcols)
                                    [0..<length (rows pedarray)]\<rparr>
                          time' None None 2))))"

subsection \<open>\<^verbatim>\<open>save_txt\<close> and \<^verbatim>\<open>read_txt\<close>\<close>

text \<open>
  A text file is its header line and its data rows. A float is written with \<^verbatim>\<open>str\<close>
  and parsed back by \<^verbatim>\<open>np.genfromtxt\<close>; the decimal text is taken to denote the same
  float, so a row of the file is the list of its values.
\<close>

record text_file =
  header :: string
  data_rows :: "real list list"

text \<open>The header line \<^verbatim>\<open>ind\tfather\tmother\ttime\<close>, without its newline.\<close>

definition txt_header :: string where
  "txt_header = ''ind'' @ [CHR 0x09] @ ''father'' @ [CHR 0x09] @ ''mother'' @ [CHR 0x09] @ ''time''"

text \<open>
  \<^verbatim>\<open>Pedigree.save_txt\<close>. \<^verbatim>\<open>pedarray[cols_to_save]\<close> indexes the first axis, so it takes
  the rows at the positions \<open>cols_to_save\<close>, and fails when there are fewer rows.
\<close>

definition save_txt :: "pedigree \<Rightarrow> error + text_file" where
  "save_txt ped =
     (case build_array ped of
        Inl e \<Rightarrow> Inl e
      | Inr pedarray \<Rightarrow>
          (let cols = default_format;
               cols_to_save = [col_individual cols, col_parents cols ! 0, col_parents cols ! 1,
                               the (col_time cols)]
           in (case take_rows cols_to_save pedarray of
                 Inl e \<Rightarrow> Inl e
               | Inr pedarray' \<Rightarrow>
                   (case parent_index_to_ID (individual ped) (parents ped) of
                      Inl e \<Rightarrow> Inl e
                    | Inr parent_IDs \<Rightarrow>
                        (case set_cols (col_parents cols)
                                \<lparr>ncols = ncols parent_IDs,
                                 rows = map (map real_of_int) (rows parent_IDs)\<rparr> pedarray' of
                           Inl e \<Rightarrow> Inl e
                         | Inr out \<Rightarrow>
                             Inr \<lparr>header = txt_header,
                                  data_rows = rows out\<rparr>)))))"

text \<open>
  \<^verbatim>\<open>np.genfromtxt(pedfile, skip_header=1, usecols=usecols, dtype=float)\<close>: the columns
  \<open>usecols\<close> of every data row. A file with a single data row gives a one-dimensional
  array, and one with none an empty one; the later \<^verbatim>\<open>data[:, c]\<close> raises on both.
\<close>

definition genfromtxt :: "text_file \<Rightarrow> nat list \<Rightarrow> error + real matrix" where
  "genfromtxt f usecols =
     (if \<exists>r\<in>set (data_rows f). \<exists>c\<in>set usecols. c \<ge> length r then Inl IndexError
      else if length (data_rows f) \<le> 1 then Inl IndexError
      else Inr \<lparr>ncols = length usecols,
                rows = map (\<lambda>r. map (\<lambda>c. r ! c) usecols) (data_rows f)\<rparr>)"

text \<open>
  \<^verbatim>\<open>Pedigree.read_txt\<close>, called without further keyword arguments. \<^verbatim>\<open>if sex_col:\<close>
  is false for \<^verbatim>\<open>None\<close> and for column 0. When \<open>time_col\<close> is \<^verbatim>\<open>None\<close> (the default) the
  times are not read from the file but inferred by \<open>get_times\<close>, which need not return.
\<close>

definition read_txt :: "text_file \<Rightarrow> nat option \<Rightarrow> nat option \<Rightarrow> (error + pedigree) option" where
  "read_txt pedfile time_col sex_col =
     (let cols = default_format\<lparr>col_time := time_col, col_sexes := sex_col\<rparr>
      in if sex_col \<noteq> None \<and> sex_col \<noteq> Some 0 then Some (Inl NotImplementedError)
         else
           (case genfromtxt pedfile (sort (column_numbers cols)) of
              Inl e \<Rightarrow> Some (Inl e)
            | Inr data \<Rightarrow>
                (case column (col_individual cols) data of
                   Inl e \<Rightarrow> Some (Inl e)
                 | Inr icol \<Rightarrow>
                     (case map_err (\<lambda>i. column i data) (col_parents cols) of
                        Inl e \<Rightarrow> Some (Inl e)
                      | Inr pcols \<Rightarrow>
                          (let individual' = map trunc icol;
                               parent_IDs = \<lparr>ncols = length pcols,
                                  rows = map (\<lambda>i. map (\<lambda>pc. trunc (pc ! i)) pcols)
                                           [0..<length (rows data)]\<rparr>
                           in (case parent_ID_to_index individual' parent_IDs of
                                 Inl e \<Rightarrow> Some (Inl e)
                               | Inr parents' \<Rightarrow>
                                   (case col_time cols of
                                      Some c \<Rightarrow>
                                        (case column c data of
                                           Inl e \<Rightarrow> Some (Inl e)
                                         | Inr time' \<Rightarrow>
                                             Some (init (map real_of_int individual') parents'
                                                     time' None None 2))
                                    | None \<Rightarrow>
                                        (case get_times individual' None (Some parents') False of
                                           None \<Rightarrow> None
                                         | Some (Inl e) \<Rightarrow> Some (Inl e)
                                         | Some (Inr tms) \<Rightarrow>
                                             Some (init (map real_of_int individual') parents'
                                                     (map real tms) None None 2)))))))))"

text \<open>
  A pedigree as the data model has it: as many parent rows and times as identifiers, two
  parents each, identifiers strictly positive, unique and within 32 bits, parent entries
  within 32 bits.
\<close>

definition valid_pedigree :: "pedigree \<Rightarrow> bool" where
  "valid_pedigree ped =
     (individual ped \<noteq> [] \<and>
      num_individuals ped = length (individual ped) \<and>
      length (time ped) = length (individual ped) \<and>
      length (rows (parents ped)) = length (individual ped) \<and>
      ncols (parents ped) = 2 \<and>
      list_all (\<lambda>r. length r = 2) (rows (parents ped)) \<and>
      distinct (individual ped) \<and>
      list_all (\<lambda>x. 0 < x \<and> x < 2 ^ 31) (individual ped) \<and>
      list_all (list_all (\<lambda>p. - (2 ^ 31) \<le> p \<and> p < 2 ^ 31)) (rows (parents ped)))"


subsection \<open>\<^verbatim>\<open>sim_pedigree\<close>\<close>

text \<open>
  The table collection is the sink the simulator appends to: a row of the individual table
  holds its flags and its parents, a row of the node table its flags, time, population and
  individual. The position of a row is its index. \<open>NULL\<close> and \<open>NODE_IS_SAMPLE\<close> are the
  constants of the table library.
\<close>

definition NULL :: int where
  "NULL = -1"

definition NODE_IS_SAMPLE :: nat where
  "NODE_IS_SAMPLE = 1"

record ind_row =
  ind_flags :: nat
  ind_parents :: "int list"

record node_row =
  node_flags :: nat
  node_time :: int
  node_population :: int
  node_individual :: int

record tables =
  sequence_length :: real
  populations :: nat
  individuals :: "ind_row list"
  nodes :: "node_row list"

text \<open>
  The variables of the loop: the tables, the array \<open>population\<close> of the previous
  generation, and how many numbers the generator has handed out. The generator
  \<^verbatim>\<open>np.random.RandomState(random_seed)\<close> is an arbitrary sequence \<open>rng\<close> of naturals.
\<close>

record sim_state =
  tabs :: tables
  population :: "int list"
  drawn :: nat

text \<open>
  \<^verbatim>\<open>rng.choice(population, (N, 2)).reshape(N * 2)\<close>: \<open>2 * N\<close> independent draws from
  \<open>population\<close>, with replacement.
\<close>

definition choice_flat :: "(nat \<Rightarrow> nat) \<Rightarrow> nat \<Rightarrow> int list \<Rightarrow> nat \<Rightarrow> int list" where
  "choice_flat rng start pop N =
     map (\<lambda>k. pop ! (rng (start + k) mod length pop)) [0..<2 * N]"

text \<open>
  \<^verbatim>\<open>append_columns(flags, parents, parents_offset)\<close>: row \<open>i\<close> of the ragged column is
  the slice of \<open>flat\<close> from \<open>offsets ! i\<close> to \<open>offsets ! (i + 1)\<close>.
\<close>

definition ragged_rows :: "'a list \<Rightarrow> nat list \<Rightarrow> 'a list list" where
  "ragged_rows flat offsets =
     map (\<lambda>i. take (offsets ! Suc i - offsets ! i) (drop (offsets ! i) flat))
       [0..<length offsets - 1]"

text \<open>One iteration of \<^verbatim>\<open>for time in reversed(range(end_time + 1))\<close>, with \<open>N \<ge> 0\<close>.\<close>

definition generation :: "(nat \<Rightarrow> nat) \<Rightarrow> nat \<Rightarrow> int \<Rightarrow> sim_state \<Rightarrow> sim_state" where
  "generation rng N tm st =
     (let tb = tabs st;
          progeny = map (\<lambda>i. int (length (individuals tb)) + int i) [0..<N];
          flat = choice_flat rng (drawn st) (population st) N;
          new_inds = map (\<lambda>ps. \<lparr>ind_flags = 0, ind_parents = ps\<rparr>)
                       (ragged_rows flat (map (\<lambda>i. i * 2) [0..<N + 1]));
          node_individual' = concat (map (\<lambda>p. [p, p]) progeny);
          flags_value = (if tm > 0 then 0 else NODE_IS_SAMPLE);
          new_nodes = map (\<lambda>p. \<lparr>node_flags = flags_value, node_time = tm,
                                   node_population = 0, node_individual = p\<rparr>)
                        node_individual'
      in \<lparr>tabs = tb\<lparr>individuals := individuals tb @ new_inds, nodes := nodes tb @ new_nodes\<rparr>,
          population = progeny,
          drawn = drawn st + 2 * N\<rparr>)"

text \<open>\<^verbatim>\<open>reversed(range(end_time + 1))\<close>: the times \<open>end_time, \<dots>, 1, 0\<close>.\<close>

definition times_down :: "int \<Rightarrow> int list" where
  "times_down end_time = rev (map int [0..<nat (end_time + 1)])"

definition initial_state :: "real option \<Rightarrow> sim_state" where
  "initial_state sequence_length' =
     \<lparr>tabs = \<lparr>sequence_length = (case sequence_length' of None \<Rightarrow> -1 | Some l \<Rightarrow> l),
              populations = 1, individuals = [], nodes = []\<rparr>,
      population = [NULL],
      drawn = 0\<rparr>"

text \<open>
  \<^verbatim>\<open>sim_pedigree\<close>. A missing \<open>end_time\<close> fails at \<^verbatim>\<open>end_time + 1\<close>; a missing
  \<open>population_size\<close> fails at \<^verbatim>\<open>np.arange(N)\<close> in the first iteration, and a negative
  one at \<^verbatim>\<open>rng.choice\<close> there. Indices are unbounded integers: a run that would need
  more rows than a 32-bit index can address is outside the model.
\<close>

definition sim_pedigree ::
  "int option \<Rightarrow> real option \<Rightarrow> (nat \<Rightarrow> nat) \<Rightarrow> int option \<Rightarrow> error + tables" where
  "sim_pedigree population_size sequence_length' rng end_time =
     (case end_time of
        None \<Rightarrow> Inl TypeError
      | Some E \<Rightarrow>
          if times_down E = [] then Inr (tabs (initial_state sequence_length'))
          else (case population_size of
                  None \<Rightarrow> Inl TypeError
                | Some N \<Rightarrow>
                    if N < 0 then Inl (ValueError NegativeSize)
                    else Inr (tabs (fold (generation rng (nat N)) (times_down E)
                                      (initial_state sequence_length')))))"

text \<open>
  The state after the first \<open>g\<close> generations (the founders are generation 0), and the
  range of row indices of generation \<open>g\<close>.
\<close>

definition after_generations :: "(nat \<Rightarrow> nat) \<Rightarrow> nat \<Rightarrow> nat \<Rightarrow> real option \<Rightarrow> nat \<Rightarrow> sim_state" where
  "after_generations rng N E sl g =
     fold (generation rng N) (take g (times_down (int E))) (initial_state sl)"

definition in_generation :: "nat \<Rightarrow> nat \<Rightarrow> int \<Rightarrow> bool" where
  "in_generation N g p = (int (g * N) \<le> p \<and> p < int (Suc g * N))"

text \<open>
  What holds of the state after \<open>g\<close> generations of size \<open>N\<close> in a run to \<open>E\<close>: the
  tables hold \<open>g * N\<close> individual rows and twice as many node rows; \<open>population\<close> is the
  last generation appended; the parents of a founder are \<open>NULL\<close> and those of a later
  individual lie in the generation before its own; node row \<open>k\<close> belongs to individual
  \<open>k div 2\<close>, carries the time of its generation, and is flagged exactly in generation
  \<open>E\<close>.
\<close>

definition sim_inv :: "nat \<Rightarrow> nat \<Rightarrow> nat \<Rightarrow> sim_state \<Rightarrow> bool" where
  "sim_inv N E g st =
     (length (individuals (tabs st)) = g * N \<and>
      length (nodes (tabs st)) = 2 * (g * N) \<and>
      population st = (if g = 0 then [NULL] else map int [(g - 1) * N..<g * N]) \<and>
      (\<forall>r<g * N.
         length (ind_parents (individuals (tabs st) ! r)) = 2 \<and>
         ind_flags (individuals (tabs st) ! r) = 0 \<and>
         (\<forall>p\<in>set (ind_parents (individuals (tabs st) ! r)).
            if r < N then p = NULL else in_generation N (r div N - 1) p)) \<and>
      (\<forall>k<2 * (g * N).
         nodes (tabs st) ! k =
           \<lparr>node_flags = (if k div (2 * N) = E then NODE_IS_SAMPLE else 0),
            node_time = int E - int (k div (2 * N)),
            node_population = 0,
            node_individual = int (k div 2)\<rparr>))"


subsection \<open>\<^verbatim>\<open>parse_fam\<close>\<close>

text \<open>
  A line of the file as \<^verbatim>\<open>np.loadtxt\<close> returns it: the five strings FID, IID, PAT, MAT
  and SEX.
\<close>

type_synonym fam_line = "string \<times> string \<times> string \<times> string \<times> string"

text \<open>
  \<^verbatim>\<open>int(sex)\<close> on a string: an optional sign, then decimal digits, with single
  underscores allowed between digits; anything else raises.
\<close>

definition digit_val :: "char \<Rightarrow> nat option" where
  "digit_val c =
     (let n = (of_char c :: nat)
      in if 48 \<le> n \<and> n \<le> 57 then Some (n - 48) else None)"

fun py_digits :: "bool \<Rightarrow> nat \<Rightarrow> string \<Rightarrow> nat option" where
  "py_digits after_digit acc [] = (if after_digit then Some acc else None)"
| "py_digits after_digit acc (c # cs) =
     (if c = CHR ''_'' then (if after_digit then py_digits False acc cs else None)
      else (case digit_val c of
              None \<Rightarrow> None
            | Some d \<Rightarrow> py_digits True (10 * acc + d) cs))"

definition py_int :: "string \<Rightarrow> int option" where
  "py_int s =
     (case s of
        [] \<Rightarrow> None
      | c # cs \<Rightarrow>
          if c = CHR ''+'' then map_option int (py_digits False 0 cs)
          else if c = CHR ''-'' then map_option (\<lambda>n. - int n) (py_digits False 0 cs)
          else map_option int (py_digits False 0 s))"

text \<open>\<^verbatim>\<open>f"{plink_fid} {plink_iid}"\<close>\<close>

definition plink_key :: "string \<Rightarrow> string \<Rightarrow> string" where
  "plink_key fid iid = fid @ '' '' @ iid"

definition fam_key :: "fam_line \<Rightarrow> string" where
  "fam_key l = (case l of (fid, iid, pat, mat, sx) \<Rightarrow> plink_key fid iid)"

text \<open>The first loop: the map from PLINK ID to row index, failing on a repeated ID.\<close>

fun build_id_map :: "(string \<rightharpoonup> int) \<Rightarrow> nat \<Rightarrow> fam_line list \<Rightarrow> error + (string \<rightharpoonup> int)" where
  "build_id_map id_map tskit_id [] = Inr id_map"
| "build_id_map id_map tskit_id (l # ls) =
     (let plink_id = fam_key l
      in if id_map plink_id \<noteq> None then Inl (ValueError DuplicatePlinkId)
         else build_id_map (id_map(plink_id \<mapsto> int tskit_id)) (Suc tskit_id) ls)"

text \<open>A row given to \<^verbatim>\<open>tb.add_row\<close>: the two parents and the metadata.\<close>

record fam_entry =
  entry_parents :: "int list"
  plink_fid :: string
  plink_iid :: string
  plink_sex :: int

definition pat_id :: "fam_line \<Rightarrow> string" where
  "pat_id l = (case l of (fid, iid, pat, mat, sx) \<Rightarrow>
                 if pat \<noteq> ''0'' then plink_key fid pat else pat)"

definition mat_id :: "fam_line \<Rightarrow> string" where
  "mat_id l = (case l of (fid, iid, pat, mat, sx) \<Rightarrow>
                 if mat \<noteq> ''0'' then plink_key fid mat else mat)"

definition sex_field :: "fam_line \<Rightarrow> string" where
  "sex_field l = (case l of (fid, iid, pat, mat, sx) \<Rightarrow> sx)"

text \<open>
  The second loop. \<^verbatim>\<open>int(sex)\<close> and the range test come first, then the lookup of the
  father and that of the mother, each a KeyError when the key is missing.
\<close>

fun add_rows :: "(string \<rightharpoonup> int) \<Rightarrow> fam_line list \<Rightarrow> error + fam_entry list" where
  "add_rows id_map [] = Inr []"
| "add_rows id_map (l # ls) =
     (case py_int (sex_field l) of
        None \<Rightarrow> Inl (ValueError InvalidLiteral)
      | Some s \<Rightarrow>
          if \<not> (0 \<le> s \<and> s < 3) then Inl (ValueError BadSex)
          else (case id_map (pat_id l) of
                  None \<Rightarrow> Inl KeyError
                | Some p \<Rightarrow>
                    (case id_map (mat_id l) of
                       None \<Rightarrow> Inl KeyError
                     | Some m \<Rightarrow>
                         (case add_rows id_map ls of
                            Inl e \<Rightarrow> Inl e
                          | Inr out \<Rightarrow>
                              Inr (\<lparr>entry_parents = [p, m],
                                    plink_fid = fst l, plink_iid = fst (snd l),
                                    plink_sex = s\<rparr> # out)))))"

text \<open>
  \<^verbatim>\<open>parse_fam\<close>, up to the rows it adds to the individual table; the final
  \<^verbatim>\<open>tc.sort()\<close> is the table library's.
\<close>

definition parse_fam :: "fam_line list \<Rightarrow> error + fam_entry list" where
  "parse_fam individuals' =
     (case build_id_map Map.empty 0 individuals' of
        Inl e \<Rightarrow> Inl e
      | Inr id_map \<Rightarrow> add_rows (id_map(''0'' \<mapsto> -1)) individuals')"

text \<open>The sex codes that are accepted, and a parent field that names a missing row.\<close>

definition valid_sex :: "fam_line \<Rightarrow> bool" where
  "valid_sex l = (py_int (sex_field l) = Some 0 \<or> py_int (sex_field l) = Some 1 \<or>
                  py_int (sex_field l) = Some 2)"

definition unresolved :: "fam_line list \<Rightarrow> fam_line \<Rightarrow> bool" where
  "unresolved ls l =
     (case l of (fid, iid, pat, mat, sx) \<Rightarrow>
        (pat \<noteq> ''0'' \<and> plink_key fid pat \<notin> fam_key ` set ls) \<or>
        (mat \<noteq> ''0'' \<and> plink_key fid mat \<notin> fam_key ` set ls))"


subsection \<open>Concrete pedigrees\<close>

text \<open>
  Five siblings (positions 0 to 4) and their one known parent (position 5). The five
  siblings are the probands.
\<close>

definition five_siblings :: pedigree where
  "five_siblings = \<lparr>
     individual = [1, 2, 3, 4, 5, 6],
     num_individuals = 6,
     parents = \<lparr>ncols = 2, rows = [[5, -1], [5, -1], [5, -1], [5, -1], [5, -1], [-1, -1]]\<rparr>,
     time = [0, 0, 0, 0, 0, 1],
     sex = None,
     ploidy = 2,
     is_sample = None,
     samples = None,
     num_samples = None \<rparr>"

text \<open>The same pedigree with the first sibling already flagged as the only sample.\<close>

definition five_siblings_sampled :: pedigree where
  "five_siblings_sampled =
     five_siblings\<lparr>is_sample := Some [1, 0, 0, 0, 0, 0], samples := Some [1],
                    num_samples := Some 1\<rparr>"

subsection \<open>Concrete genealogies\<close>

text \<open>
  An ancestor (position 7) reached from the proband 0 by a path of 2 edges and from the
  proband 2 by a path of 5 edges.
\<close>

definition two_lineages :: "int matrix" where
  "two_lineages = \<lparr>ncols = 2,
     rows = [[1, -1], [7, -1], [3, -1], [4, -1], [5, -1], [6, -1], [7, -1], [-1, -1]]\<rparr>"

text \<open>A single unbranched lineage of depth \<open>k\<close>: individual \<open>i\<close> has the one parent \<open>i + 1\<close>.\<close>

definition lineage :: "nat \<Rightarrow> int matrix" where
  "lineage k = \<lparr>ncols = 2, rows = map (\<lambda>i. [int (Suc i), -1]) [0..<k] @ [[-1, -1]]\<rparr>"

text \<open>A proband (position 0) below two individuals that are each other's parent.\<close>

definition looped :: "int matrix" where
  "looped = \<lparr>ncols = 2, rows = [[1, -1], [2, -1], [1, -1]]\<rparr>"

text \<open>A single individual recorded as its own parent.\<close>

definition self_parent :: "int matrix" where
  "self_parent = \<lparr>ncols = 2, rows = [[0, -1]]\<rparr>"

subsection \<open>Concrete exchange-format inputs\<close>

text \<open>Two parents and their child.\<close>

definition fam_trio :: "fam_line list" where
  "fam_trio = [(''F1'', ''1'', ''0'', ''0'', ''1''), (''F1'', ''2'', ''0'', ''0'', ''2''),
               (''F1'', ''3'', ''1'', ''2'', ''0'')]"

text \<open>Two rows with family id F1 and individual id 1.\<close>

definition fam_duplicate :: "fam_line list" where
  "fam_duplicate = [(''F1'', ''1'', ''0'', ''0'', ''1''), (''F1'', ''1'', ''0'', ''0'', ''2'')]"

text \<open>A row with the sex code 3.\<close>

definition fam_bad_sex :: "fam_line list" where
  "fam_bad_sex = [(''F1'', ''1'', ''0'', ''0'', ''3'')]"

text \<open>A row whose paternal id 9 is the id of no row of the family.\<close>

definition fam_broken :: "fam_line list" where
  "fam_broken = [(''F1'', ''1'', ''0'', ''0'', ''1''), (''F1'', ''2'', ''9'', ''0'', ''2'')]"

subsection \<open>Concrete pedigrees for the file formats\<close>

text \<open>A single individual without known parents.\<close>

definition lone_founder :: pedigree where
  "lone_founder = \<lparr>
     individual = [1],
     num_individuals = 1,
     parents = \<lparr>ncols = 2, rows = [[-1, -1]]\<rparr>,
     time = [0],
     sex = None,
     ploidy = 2,
     is_sample = None,
     samples = None,
     num_samples = None \<rparr>"

text \<open>Two siblings at time 0 and their two parents at time 2.\<close>

definition two_by_two :: pedigree where
  "two_by_two = \<lparr>
     individual = [10, 20, 30, 40],
     num_individuals = 4,
     parents = \<lparr>ncols = 2, rows = [[2, 3], [2, 3], [-1, -1], [-1, -1]]\<rparr>,
     time = [0, 0, 2, 2],
     sex = None,
     ploidy = 2,
     is_sample = None,
     samples = None,
     num_samples = None \<rparr>"

text \<open>The text file that \<open>save_txt\<close> writes of \<open>two_by_two\<close>.\<close>

definition two_by_two_file :: text_file where
  "two_by_two_file = \<lparr>header = txt_header,
     data_rows = [[10, 30, 40, 0], [20, 30, 40, 0], [30, 0, 0, 2], [40, 0, 0, 2]]\<rparr>"


section \<open>Properties\<close>

subsection \<open>\<^verbatim>\<open>check_times\<close>\<close>

lemma check_parents_Inr:
  "check_parents idv tms ind i row = Inr u \<Longrightarrow>
   k < length row \<Longrightarrow> row ! k \<ge> 0 \<Longrightarrow> tms ! i < tms ! nat (row ! k)"
proof (induction row arbitrary: k)
  case Nil
  then show ?case by simp
next
  case (Cons p row)
  show ?case
  proof (cases k)
    case 0
    with Cons.prems show ?thesis by (auto split: if_splits)
  next
    case (Suc j)
    from Cons.prems have "check_parents idv tms ind i row = Inr u"
      by (auto split: if_splits)
    with Cons.IH [of j] Cons.prems Suc show ?thesis by simp
  qed
qed

lemma check_parents_Inl:
  assumes "check_parents idv tms ind i row = Inl e"
    and "i < length tms" and "length idv = length tms"
    and "list_all (\<lambda>p. p < int (length tms)) row"
  shows "\<exists>k < length row. row ! k \<ge> 0 \<and> tms ! i \<ge> tms ! nat (row ! k) \<and>
           e = ValueError (TimeOrder ind (idv ! nat (row ! k)))"
  using assms
proof (induction row)
  case Nil
  then show ?case by simp
next
  case (Cons p row)
  show ?case
  proof (cases "p \<ge> 0 \<and> tms ! i \<ge> tms ! nat p")
    case True
    with Cons.prems have "e = ValueError (TimeOrder ind (idv ! nat p))"
      by (auto split: if_splits)
    with True show ?thesis by (intro exI [of _ 0]) simp
  next
    case False
    with Cons.prems have "check_parents idv tms ind i row = Inl e"
      by (auto split: if_splits)
    with Cons.IH Cons.prems obtain k where "k < length row" "row ! k \<ge> 0"
      "tms ! i \<ge> tms ! nat (row ! k)"
      "e = ValueError (TimeOrder ind (idv ! nat (row ! k)))"
      by auto
    then show ?thesis by (intro exI [of _ "Suc k"]) simp
  qed
qed

lemma check_from_Inr:
  "check_from idv ps tms i inds = Inr u \<Longrightarrow>
   i \<le> j \<Longrightarrow> j < i + length inds \<Longrightarrow> k < length (ps ! j) \<Longrightarrow> ps ! j ! k \<ge> 0 \<Longrightarrow>
   tms ! j < tms ! nat (ps ! j ! k)"
proof (induction inds arbitrary: i)
  case Nil
  then show ?case by simp
next
  case (Cons ind inds)
  from Cons.prems(1) obtain u' where
    row: "check_parents idv tms ind i (ps ! i) = Inr u'" and
    rest: "check_from idv ps tms (Suc i) inds = Inr u"
    by (auto split: if_splits sum.splits)
  show ?case
  proof (cases "j = i")
    case True
    with check_parents_Inr [OF row] Cons.prems show ?thesis by simp
  next
    case False
    with Cons.IH [OF rest] Cons.prems show ?thesis by simp
  qed
qed

lemma check_from_Inl:
  assumes "check_from idv ps tms i inds = Inl e"
    and "i + length inds = length tms" and "length idv = length tms"
    and "length ps = length tms"
    and "list_all (list_all (\<lambda>p. p < int (length tms))) ps"
    and "inds = drop i idv"
  shows "\<exists>j k. j < length ps \<and> k < length (ps ! j) \<and> ps ! j ! k \<ge> 0 \<and>
           tms ! j \<ge> tms ! nat (ps ! j ! k) \<and>
           e = ValueError (TimeOrder (idv ! j) (idv ! nat (ps ! j ! k)))"
  using assms
proof (induction inds arbitrary: i)
  case Nil
  then show ?case by simp
next
  case (Cons ind inds)
  from Cons.prems(2) have i: "i < length tms" by simp
  from Cons.prems(6) have ind: "ind = idv ! i"
    by (metis nth_via_drop)
  from i Cons.prems have rowok: "list_all (\<lambda>p. p < int (length tms)) (ps ! i)"
    by (simp add: list_all_length)
  show ?case
  proof (cases "check_parents idv tms ind i (ps ! i)")
    case (Inl e')
    with Cons.prems(1) i Cons.prems(4) have "e' = e" by simp
    with Inl check_parents_Inl [OF _ i Cons.prems(3) rowok] ind i Cons.prems(4)
    show ?thesis by metis
  next
    case (Inr u)
    with Cons.prems(1) i Cons.prems(4)
    have rest: "check_from idv ps tms (Suc i) inds = Inl e"
      by simp
    from Cons.prems(6) have "inds = drop (Suc i) idv"
      by (metis drop_Suc list.sel(3) tl_drop)
    with Cons.IH [OF rest] Cons.prems(2-5) show ?thesis by simp
  qed
qed

lemma check_times_Inl_violation:
  assumes "index_matrix (length tms) par" and "length idv = length tms"
    and "check_times idv par tms = Inl e"
  shows "\<exists>i k. violation par tms i k \<and>
           e = ValueError (TimeOrder (idv ! i) (idv ! nat (rows par ! i ! k)))"
  using check_from_Inl [of idv "rows par" tms 0 idv e] assms
  unfolding check_times_def violation_def index_matrix_def by auto

text \<open>
  C7. On a well-shaped input, \<open>check_times\<close> raises exactly when some individual has a
  present parent that is not strictly older; the error it raises names the identifiers
  (\<open>individual ! i\<close>, not the positions) of such a child and parent; without a violation it
  returns normally. The function is a check only: it computes no new array.
\<close>

theorem check_times_raises_iff_violation:
  assumes "index_matrix (length tms) par" and "length idv = length tms"
  shows "((\<exists>e. check_times idv par tms = Inl e) \<longleftrightarrow>
            (\<exists>i k. violation par tms i k)) \<and>
         (\<forall>e. check_times idv par tms = Inl e \<longrightarrow>
            (\<exists>i k. violation par tms i k \<and>
               e = ValueError (TimeOrder (idv ! i)
                                 (idv ! nat (rows par ! i ! k))))) \<and>
         ((\<forall>i k. \<not> violation par tms i k) \<longrightarrow>
            check_times idv par tms = Inr ())"
proof -
  let ?ps = "rows par"
  have len: "length ?ps = length tms"
    and ok: "list_all (list_all (\<lambda>p. p < int (length tms))) ?ps"
    using assms(1) by (simp_all add: index_matrix_def)
  have A: "\<exists>i k. violation par tms i k \<and>
             e = ValueError (TimeOrder (idv ! i) (idv ! nat (?ps ! i ! k)))"
    if "check_times idv par tms = Inl e" for e
    using check_from_Inl [of idv ?ps tms 0 idv e] that len ok assms(2)
    unfolding check_times_def violation_def by auto
  have B: "\<not> violation par tms i k"
    if "check_times idv par tms = Inr u" for u i k
  proof
    assume v: "violation par tms i k"
    then have "i < length idv" using len assms(2) by (simp add: violation_def)
    with check_from_Inr [of idv ?ps tms 0 idv u i k] that v
    show False unfolding check_times_def violation_def by auto
  qed
  have C: "(\<exists>e. check_times idv par tms = Inl e) \<longleftrightarrow>
           (\<exists>i k. violation par tms i k)"
  proof
    assume "\<exists>e. check_times idv par tms = Inl e"
    with A show "\<exists>i k. violation par tms i k" by blast
  next
    assume v: "\<exists>i k. violation par tms i k"
    show "\<exists>e. check_times idv par tms = Inl e"
    proof (cases "check_times idv par tms")
      case (Inl e)
      then show ?thesis by blast
    next
      case (Inr u)
      with B v show ?thesis by blast
    qed
  qed
  have D: "check_times idv par tms = Inr ()"
    if "\<forall>i k. \<not> violation par tms i k"
  proof (cases "check_times idv par tms")
    case (Inl e)
    with A that show ?thesis by blast
  next
    case (Inr u)
    then show ?thesis by simp
  qed
  from A C D show ?thesis by blast
qed

theorem check_times_raises_iff_violation_witness:
  "index_matrix (length [1, 0 :: real]) \<lparr>ncols = 2, rows = [[1, -1], [-1, -1]]\<rparr> \<and>
   length [10, 20 :: int] = length [1, 0 :: real] \<and>
   violation \<lparr>ncols = 2, rows = [[1, -1], [-1, -1]]\<rparr> [1, 0 :: real] 0 0 \<and>
   check_times [10, 20] \<lparr>ncols = 2, rows = [[1, -1], [-1, -1]]\<rparr> [1, 0 :: real] =
     Inl (ValueError (TimeOrder 10 20)) \<and>
   (\<forall>i k. \<not> violation \<lparr>ncols = 2, rows = [[1, -1], [-1, -1]]\<rparr> [0, 1 :: real] i k) \<and>
   check_times [10, 20] \<lparr>ncols = 2, rows = [[1, -1], [-1, -1]]\<rparr> [0, 1 :: real] = Inr ()"
proof -
  let ?P = "\<lparr>ncols = 2, rows = [[1, -1], [-1, -1 :: int]]\<rparr>"
  have h1: "index_matrix (length [1, 0 :: real]) ?P"
    by (simp add: index_matrix_def)
  have h2: "length [10, 20 :: int] = length [1, 0 :: real]" by simp
  have v: "violation ?P [1, 0 :: real] 0 0" by (simp add: violation_def)
  have c: "check_times [10, 20] ?P [1, 0 :: real] = Inl (ValueError (TimeOrder 10 20))"
    by (simp add: check_times_def)
  have h3: "index_matrix (length [0, 1 :: real]) ?P"
    by (simp add: index_matrix_def)
  have h4: "length [10, 20 :: int] = length [0, 1 :: real]" by simp
  have nv: "\<not> violation ?P [0, 1 :: real] i k" for i k
  proof -
    have "i < 2 \<Longrightarrow> i = 0 \<or> i = 1" by arith
    moreover have "k < 2 \<Longrightarrow> k = 0 \<or> k = 1" by arith
    ultimately show ?thesis by (auto simp: violation_def)
  qed
  from check_times_raises_iff_violation [OF h3 h4] nv
  have "check_times [10, 20] ?P [0, 1 :: real] = Inr ()" by blast
  with h1 h2 v c nv show ?thesis by blast
qed

subsection \<open>Construction\<close>

lemma fold_min_positive:
  "(0 < fold min xs (a::'a::{linorder,zero})) \<longleftrightarrow> (0 < a \<and> (\<forall>x\<in>set xs. 0 < x))"
  by (induction xs arbitrary: a) auto

lemma np_min_positive:
  "(\<exists>m. np_min xs = Inr m \<and> \<not> m \<le> (0::real)) \<longleftrightarrow> (xs \<noteq> [] \<and> (\<forall>x\<in>set xs. 0 < x))"
  by (cases xs) (auto simp: np_min_def fold_min_positive not_le)

text \<open>
  C2 (as amended). The constructor fails exactly when the ploidy is not 2, a sex array is
  given, the parent matrix does not have 2 columns, or the identifier array is empty or
  holds an identifier that is not strictly positive. Nothing else is checked: neither the
  uniqueness of the identifiers nor the order of the times.
\<close>

theorem init_succeeds_iff:
  "(\<exists>p. init individual' parents' time' is_sample' sex' ploidy' = Inr p) \<longleftrightarrow>
   (ploidy' = 2 \<and> sex' = None \<and> ncols parents' = 2 \<and> individual' \<noteq> [] \<and>
    (\<forall>x\<in>set individual'. 0 < x))"
proof -
  have "(\<exists>p. init individual' parents' time' is_sample' sex' ploidy' = Inr p) \<longleftrightarrow>
        (ploidy' = 2 \<and> sex' = None \<and> ncols parents' = 2 \<and>
         (\<exists>m. np_min individual' = Inr m \<and> \<not> m \<le> 0))"
    by (cases sex') (auto simp: init_def split: sum.splits)
  then show ?thesis by (simp only: np_min_positive)
qed

theorem init_succeeds_iff_witness:
  "(\<exists>p. init [3, 7] \<lparr>ncols = 2, rows = [[1, -1], [-1, -1]]\<rparr> [0, 1] None None 2 = Inr p) \<and>
   (0 < (3::real) \<and> 0 < (7::real)) \<and>
   \<not> (\<exists>p. init [3, 0] \<lparr>ncols = 2, rows = [[1, -1], [-1, -1]]\<rparr> [0, 1] None None 2 = Inr p)"
  using init_succeeds_iff [of "[3, 7]" "\<lparr>ncols = 2, rows = [[1, -1], [-1, -1]]\<rparr>" "[0, 1]" None None 2]
    init_succeeds_iff [of "[3, 0]" "\<lparr>ncols = 2, rows = [[1, -1], [-1, -1]]\<rparr>" "[0, 1]" None None 2]
  by simp

text \<open>
  C2 as stated fails: an identifier array with a repeated identifier is accepted, and so
  are explicit times in which a child is not younger than its parent.
\<close>

theorem init_accepts_duplicates_and_disorder:
  "\<not> distinct [1, 1 :: real] \<and>
   \<not> isl (init [1, 1] \<lparr>ncols = 2, rows = [[-1, -1], [-1, -1]]\<rparr> [0, 0] None None 2) \<and>
   violation \<lparr>ncols = 2, rows = [[1, -1], [-1, -1]]\<rparr> [1, 0 :: real] 0 0 \<and>
   \<not> isl (init [1, 2] \<lparr>ncols = 2, rows = [[1, -1], [-1, -1]]\<rparr> [1, 0] None None 2)"
  by (simp add: init_def np_min_def violation_def)

subsection \<open>\<^verbatim>\<open>set_samples\<close>\<close>

lemma distinct_probands: "distinct (probands n ps)"
  by (simp add: probands_def)

lemma set_probands: "set (probands n ps) = {i. i < n \<and> int i \<notin> set (ravel ps)}"
  by (auto simp: probands_def)

lemma remove_nth_props:
  assumes "j < length pool" and "distinct pool"
  shows "length (take j pool @ drop (Suc j) pool) = length pool - 1"
    and "distinct (take j pool @ drop (Suc j) pool)"
    and "set (take j pool @ drop (Suc j) pool) = set pool - {pool ! j}"
proof -
  have split: "pool = take j pool @ pool ! j # drop (Suc j) pool"
    using assms(1) by (simp add: id_take_nth_drop)
  show "length (take j pool @ drop (Suc j) pool) = length pool - 1"
    using assms(1) by simp
  from assms(2) split have d: "distinct (take j pool @ pool ! j # drop (Suc j) pool)"
    by simp
  then show "distinct (take j pool @ drop (Suc j) pool)" by simp
  have "set pool = set (take j pool @ pool ! j # drop (Suc j) pool)"
    using split by simp
  with d show "set (take j pool @ drop (Suc j) pool) = set pool - {pool ! j}"
    by auto
qed

lemma choice_no_replace_props:
  "k \<le> length pool \<Longrightarrow> distinct pool \<Longrightarrow>
   length (choice_no_replace rng k pool) = k \<and>
   distinct (choice_no_replace rng k pool) \<and>
   set (choice_no_replace rng k pool) \<subseteq> set pool"
proof (induction k arbitrary: pool)
  case 0
  then show ?case by simp
next
  case (Suc k)
  let ?j = "rng k mod length pool"
  let ?rest = "take ?j pool @ drop (Suc ?j) pool"
  from Suc.prems(1) have "0 < length pool" by arith
  then have j: "?j < length pool" by (rule mod_less_divisor)
  note r = remove_nth_props [OF j Suc.prems(2)]
  from Suc.prems r(1) have "k \<le> length ?rest" by simp
  from Suc.IH [OF this r(2)]
  have ih: "length (choice_no_replace rng k ?rest) = k"
    "distinct (choice_no_replace rng k ?rest)"
    "set (choice_no_replace rng k ?rest) \<subseteq> set ?rest"
    by simp_all
  from ih(3) r(3) have "pool ! ?j \<notin> set (choice_no_replace rng k ?rest)" by auto
  moreover from ih(3) r(3) have "set (choice_no_replace rng k ?rest) \<subseteq> set pool" by auto
  moreover from j have "pool ! ?j \<in> set pool" by simp
  ultimately show ?case using ih by (simp add: Let_def)
qed

lemma set_ones_ok:
  "\<forall>i\<in>set idxs. i < length flags \<Longrightarrow>
   \<exists>f. set_ones flags idxs = Inr f \<and> length f = length flags \<and>
       (\<forall>i<length flags. f ! i = (if i \<in> set idxs then 1 else flags ! i))"
proof (induction idxs arbitrary: flags)
  case Nil
  then show ?case by simp
next
  case (Cons i idxs)
  from Cons.prems have "\<forall>j\<in>set idxs. j < length (flags[i := 1])" by simp
  from Cons.IH [OF this] obtain f where
    f: "set_ones (flags[i := 1]) idxs = Inr f" "length f = length flags"
    "\<forall>j<length flags. f ! j = (if j \<in> set idxs then 1 else flags[i := 1] ! j)"
    by auto
  from Cons.prems have i: "i < length flags" by simp
  have "\<forall>j<length flags. f ! j = (if j \<in> set (i # idxs) then 1 else flags ! j)"
    using f(3) i by (auto simp: nth_list_update)
  with f i show ?case by simp
qed

lemma count_ones:
  assumes "length f = n" and "\<forall>i<n. f ! i = (if i \<in> S then 1 else (0::nat))" and "S \<subseteq> {..<n}"
  shows "length (filter (\<lambda>x. x = 1) f) = card S"
proof -
  have "{i. i < length f \<and> f ! i = 1} = S"
    using assms by (auto split: if_splits)
  then show ?thesis by (simp add: length_filter_conv_card)
qed

lemma set_samples_count_ok:
  assumes inv: "num_individuals ped = length (individual ped)"
    and k: "0 \<le> k" "k \<le> int (length (get_proband_indices ped))"
    and ne: "get_proband_indices ped \<noteq> []"
  shows "\<exists>ped' flags. set_samples (Some k) None True rng ped = (None, ped') \<and>
           is_sample ped' = Some flags \<and> num_samples ped' = Some k \<and>
           length flags = length (individual ped) \<and>
           length (filter (\<lambda>x. x = 1) flags) = nat k \<and>
           (\<forall>i<length flags. flags ! i = 1 \<or> flags ! i = 0) \<and>
           (\<forall>i<length flags. flags ! i = 1 \<longrightarrow> i \<in> set (get_proband_indices ped))"
proof -
  let ?n = "length (individual ped)"
  let ?pool = "probands ?n (parents ped)"
  let ?idx = "choice_no_replace rng (nat k) ?pool"
  let ?zeros = "replicate ?n (0::nat)"
  from k have "nat k \<le> length ?pool" by (simp add: get_proband_indices_def)
  from choice_no_replace_props [OF this distinct_probands]
  have c: "length ?idx = nat k" "distinct ?idx" "set ?idx \<subseteq> set ?pool" by simp_all
  from c(3) have inr: "\<forall>i\<in>set ?idx. i < length ?zeros"
    by (auto simp: set_probands)
  from set_ones_ok [OF inr] obtain f where
    f: "set_ones ?zeros ?idx = Inr f" "length f = ?n"
    "\<forall>i<?n. f ! i = (if i \<in> set ?idx then 1 else 0)"
    by auto
  from c(3) have "set ?idx \<subseteq> {..<?n}" by (auto simp: set_probands)
  from count_ones [OF f(2) f(3) this] c(1) c(2)
  have cnt: "length (filter (\<lambda>x. x = 1) f) = nat k" by (simp add: distinct_card)
  let ?ped' = "ped\<lparr>is_sample := Some f, num_samples := Some k\<rparr>"
  have "set_samples (Some k) None True rng ped = (None, ?ped')"
    using k ne f(1) c(1) inv
    by (simp add: set_samples_def finish_samples_def get_proband_indices_def Let_def)
  moreover have "\<forall>i<length f. f ! i = 1 \<longrightarrow> i \<in> set (get_proband_indices ped)"
    using f(2) f(3) c(3) by (auto simp: get_proband_indices_def split: if_splits)
  moreover have "\<forall>i<length f. f ! i = 1 \<or> f ! i = 0"
    using f(2) f(3) by auto
  ultimately show ?thesis using f(2) cnt by auto
qed

text \<open>
  C5. \<open>set_samples\<close> raises when neither or both of the count and the identifier list are
  given. Given a count \<open>k\<close> alone, it raises when \<open>k\<close> exceeds the number of probands;
  otherwise (for a count \<open>k \<ge> 0\<close> on a pedigree that has a proband) it returns normally,
  and exactly \<open>k\<close> entries of the new flag vector are 1, each at a proband index.
\<close>

theorem set_samples_by_count:
  assumes "num_individuals ped = length (individual ped)"
  shows "fst (set_samples None None True rng ped) \<noteq> None \<and>
         fst (set_samples (Some k) (Some ids) True rng ped) \<noteq> None \<and>
         (k > int (length (get_proband_indices ped)) \<longrightarrow>
            fst (set_samples (Some k) None True rng ped) \<noteq> None) \<and>
         (0 \<le> k \<and> k \<le> int (length (get_proband_indices ped)) \<and>
          get_proband_indices ped \<noteq> [] \<longrightarrow>
            (\<exists>ped' flags. set_samples (Some k) None True rng ped = (None, ped') \<and>
               is_sample ped' = Some flags \<and>
               length flags = length (individual ped) \<and>
               length (filter (\<lambda>x. x = 1) flags) = nat k \<and>
               (\<forall>i<length flags. flags ! i = 1 \<longrightarrow>
                  i \<in> set (get_proband_indices ped) \<and> int i \<notin> set (ravel (parents ped)))))"
proof -
  have A: "fst (set_samples None None True rng ped) \<noteq> None"
    by (simp add: set_samples_def)
  have B: "fst (set_samples (Some k) (Some ids) True rng ped) \<noteq> None"
    by (simp add: set_samples_def)
  have C: "fst (set_samples (Some k) None True rng ped) \<noteq> None"
    if "k > int (length (get_proband_indices ped))"
    using that by (simp add: set_samples_def get_proband_indices_def Let_def)
  have D: "\<exists>ped' flags. set_samples (Some k) None True rng ped = (None, ped') \<and>
               is_sample ped' = Some flags \<and>
               length flags = length (individual ped) \<and>
               length (filter (\<lambda>x. x = 1) flags) = nat k \<and>
               (\<forall>i<length flags. flags ! i = 1 \<longrightarrow>
                  i \<in> set (get_proband_indices ped) \<and> int i \<notin> set (ravel (parents ped)))"
    if "0 \<le> k \<and> k \<le> int (length (get_proband_indices ped)) \<and> get_proband_indices ped \<noteq> []"
  proof -
    from set_samples_count_ok [OF assms, of k rng] that
    obtain ped' flags where
      r: "set_samples (Some k) None True rng ped = (None, ped')"
         "is_sample ped' = Some flags" "length flags = length (individual ped)"
         "length (filter (\<lambda>x. x = 1) flags) = nat k"
         "\<forall>i<length flags. flags ! i = 1 \<longrightarrow> i \<in> set (get_proband_indices ped)"
      by blast
    have "set (get_proband_indices ped) \<subseteq> {i. int i \<notin> set (ravel (parents ped))}"
      by (auto simp: get_proband_indices_def set_probands)
    with r show ?thesis by blast
  qed
  from A B C D show ?thesis by blast
qed

lemma probands_five_siblings: "get_proband_indices five_siblings = [0, 1, 2, 3, 4]"
  by (simp add: get_proband_indices_def probands_def ravel_def five_siblings_def)

theorem set_samples_by_count_witness:
  "num_individuals five_siblings = length (individual five_siblings) \<and>
   (6 > int (length (get_proband_indices five_siblings)) \<and>
      fst (set_samples (Some 6) None True id five_siblings) \<noteq> None) \<and>
   (0 \<le> (3::int) \<and> 3 \<le> int (length (get_proband_indices five_siblings)) \<and>
    get_proband_indices five_siblings \<noteq> [] \<and>
    (\<exists>ped' flags. set_samples (Some 3) None True id five_siblings = (None, ped') \<and>
       is_sample ped' = Some flags \<and>
       length (filter (\<lambda>x. x = 1) flags) = nat 3 \<and>
       (\<forall>i<length flags. flags ! i = 1 \<longrightarrow> i \<in> set (get_proband_indices five_siblings))))"
proof -
  have inv: "num_individuals five_siblings = length (individual five_siblings)"
    by (simp add: five_siblings_def)
  have p: "length (get_proband_indices five_siblings) = 5"
    "get_proband_indices five_siblings \<noteq> []"
    by (simp_all add: probands_five_siblings)
  from set_samples_by_count [OF inv, where k = 6 and rng = id and ids = "[]"] p
  have six: "fst (set_samples (Some 6) None True id five_siblings) \<noteq> None" by simp
  have k3: "0 \<le> (3::int) \<and> 3 \<le> int (length (get_proband_indices five_siblings)) \<and>
    get_proband_indices five_siblings \<noteq> []"
    using p by simp
  from set_samples_by_count [OF inv, where k = 3 and rng = id and ids = "[]"] k3
  have three: "\<exists>ped' flags. set_samples (Some 3) None True id five_siblings = (None, ped') \<and>
       is_sample ped' = Some flags \<and>
       length (filter (\<lambda>x. x = 1) flags) = nat 3 \<and>
       (\<forall>i<length flags. flags ! i = 1 \<longrightarrow> i \<in> set (get_proband_indices five_siblings))"
    by blast
  from inv p six three show ?thesis by simp
qed

lemma finish_samples_failure:
  "fst (finish_samples ped idx) = Some e \<Longrightarrow> snd (finish_samples ped idx) = ped"
  by (auto simp: finish_samples_def split: sum.splits if_splits)

text \<open>
  C6 (as amended). A call of \<open>set_samples\<close> that fails on its arguments (non-proband
  sampling requested, neither or both of the count and the identifier list given) leaves
  the pedigree as it was. A call that fails later (more samples requested than probands, a
  negative count, an identifier list that does not resolve to as many probands) has
  already replaced the flag vector by zeros and stored the requested count; nothing else
  has changed.
\<close>

theorem set_samples_failure_state:
  assumes "fst (set_samples ns ids po rng ped) \<noteq> None"
  shows "snd (set_samples ns ids po rng ped) =
           (if \<not> po \<or> (ns = None \<and> ids = None) \<or> (ns \<noteq> None \<and> ids \<noteq> None) then ped
            else ped\<lparr>is_sample := Some (replicate (num_individuals ped) 0),
                     num_samples := Some (case ns of Some k \<Rightarrow> k
                                           | None \<Rightarrow> int (length (the ids)))\<rparr>)"
proof (cases "\<not> po \<or> (ns = None \<and> ids = None) \<or> (ns \<noteq> None \<and> ids \<noteq> None)")
  case True
  then show ?thesis by (auto simp: set_samples_def)
next
  case False
  show ?thesis
  proof (cases ns)
    case (Some k)
    with False have "ids = None" "po" by auto
    with Some assms show ?thesis
      by (auto simp: set_samples_def Let_def dest: finish_samples_failure split: if_splits)
  next
    case None
    with False obtain l where "ids = Some l" "po" by auto
    with None assms show ?thesis
      by (auto simp: set_samples_def Let_def dest: finish_samples_failure
               split: if_splits sum.splits)
  qed
qed

theorem set_samples_failure_state_witness:
  "fst (set_samples (Some 6) None True id five_siblings_sampled) \<noteq> None \<and>
   snd (set_samples (Some 6) None True id five_siblings_sampled) =
     five_siblings_sampled\<lparr>is_sample := Some [0, 0, 0, 0, 0, 0], num_samples := Some 6\<rparr> \<and>
   fst (set_samples (Some 1) (Some [1]) True id five_siblings_sampled) \<noteq> None \<and>
   snd (set_samples (Some 1) (Some [1]) True id five_siblings_sampled) = five_siblings_sampled"
proof -
  have f6: "fst (set_samples (Some 6) None True id five_siblings_sampled) \<noteq> None"
    by (simp add: set_samples_def five_siblings_sampled_def five_siblings_def probands_def
          ravel_def Let_def)
  have f1: "fst (set_samples (Some 1) (Some [1]) True id five_siblings_sampled) \<noteq> None"
    by (simp add: set_samples_def)
  have n: "num_individuals five_siblings_sampled = 6"
    by (simp add: five_siblings_sampled_def five_siblings_def)
  have r: "replicate 6 (0::nat) = [0, 0, 0, 0, 0, 0]"
    by (simp add: numeral_eq_Suc)
  from set_samples_failure_state [OF f6] set_samples_failure_state [OF f1] f6 f1 n r
  show ?thesis by simp
qed

text \<open>
  C6 as stated fails: asking for 6 samples of a pedigree with 5 probands raises, and the
  failed call has wiped the flag that was set and overwritten the stored count.
\<close>

theorem set_samples_failure_mutates:
  "fst (set_samples (Some 6) None True id five_siblings_sampled) =
     Some (ValueError (TooManySamples 6 5)) \<and>
   is_sample five_siblings_sampled = Some [1, 0, 0, 0, 0, 0] \<and>
   is_sample (snd (set_samples (Some 6) None True id five_siblings_sampled)) =
     Some [0, 0, 0, 0, 0, 0] \<and>
   num_samples five_siblings_sampled = Some 1 \<and>
   num_samples (snd (set_samples (Some 6) None True id five_siblings_sampled)) = Some 6"
  by (simp add: set_samples_def five_siblings_sampled_def five_siblings_def probands_def
        ravel_def Let_def numeral_eq_Suc)


subsection \<open>The climb of \<^verbatim>\<open>get_times\<close>\<close>

lemma finite_edges: "finite (edges ps)"
proof -
  have "edges ps \<subseteq> {..<length ps} \<times> nat ` (\<Union>row\<in>set ps. set row)"
  proof
    fix e
    assume "e \<in> edges ps"
    then obtain c p where e: "e = (c, p)" "c < length ps" "int p \<in> set (ps ! c)"
      by (auto simp: edges_def)
    then have "int p \<in> (\<Union>row\<in>set ps. set row)" by auto
    then have "nat (int p) \<in> nat ` (\<Union>row\<in>set ps. set row)" by (rule imageI)
    with e show "e \<in> {..<length ps} \<times> nat ` (\<Union>row\<in>set ps. set row)" by simp
  qed
  moreover have "finite ({..<length ps} \<times> nat ` (\<Union>row\<in>set ps. set row))" by simp
  ultimately show ?thesis by (rule finite_subset)
qed

lemma parents_of_row: "c < length ps \<Longrightarrow>
  set (map nat (filter (\<lambda>p. p \<ge> 0) (ps ! c))) = edges ps `` {c}"
proof (intro set_eqI iffI)
  fix p
  assume c: "c < length ps" and "p \<in> set (map nat (filter (\<lambda>p. p \<ge> 0) (ps ! c)))"
  then obtain q where "q \<in> set (ps ! c)" "q \<ge> 0" "p = nat q" by auto
  with c show "p \<in> edges ps `` {c}" by (simp add: edges_def)
next
  fix p
  assume "c < length ps" and "p \<in> edges ps `` {c}"
  then have "int p \<in> set (ps ! c)" by (simp add: edges_def)
  then have "nat (int p) \<in> nat ` {q \<in> set (ps ! c). q \<ge> 0}" by (intro imageI) simp
  then show "p \<in> set (map nat (filter (\<lambda>p. p \<ge> 0) (ps ! c)))" by simp
qed

text \<open>What one pass computes, when it does not raise.\<close>

lemma sweep_Inr:
  "sweep ps t cs tms nx = Inr (tms', nx') \<Longrightarrow>
   set nx' = set nx \<union> edges ps `` set cs \<and> length tms' = length tms \<and>
   (\<forall>v<length tms. tms' ! v = (if v \<in> set cs then max (tms ! v) t else tms ! v))"
proof (induction cs arbitrary: tms nx)
  case Nil
  then show ?case by simp
next
  case (Cons c cs)
  let ?tms = "if tms ! c < t then tms[c := t] else tms"
  let ?nx = "nx @ map nat (filter (\<lambda>p. p \<ge> 0) (ps ! c))"
  from Cons.prems have c: "c < length tms" "c < length ps"
    and rest: "sweep ps t cs ?tms ?nx = Inr (tms', nx')"
    by (auto simp: Let_def split: if_splits)
  from Cons.IH [OF rest]
  have ih: "set nx' = set ?nx \<union> edges ps `` set cs" "length tms' = length ?tms"
    "\<forall>v<length ?tms. tms' ! v = (if v \<in> set cs then max (?tms ! v) t else ?tms ! v)"
    by blast+
  have "set ?nx = set nx \<union> edges ps `` {c}"
    using parents_of_row [OF c(2)] by simp
  with ih(1) have A: "set nx' = set nx \<union> edges ps `` set (c # cs)" by auto
  have B: "length tms' = length tms" using ih(2) by simp
  have C: "tms' ! v = (if v \<in> set (c # cs) then max (tms ! v) t else tms ! v)"
    if "v < length tms" for v
  proof -
    from that ih(3) have "tms' ! v = (if v \<in> set cs then max (?tms ! v) t else ?tms ! v)"
      by simp
    moreover have "?tms ! v = (if v = c then max (tms ! v) t else tms ! v)"
      using that by (auto simp: nth_list_update)
    ultimately show ?thesis by auto
  qed
  from A B C show ?case by blast
qed

lemma sweep_no_error:
  "\<forall>c\<in>set cs. c < length tms \<and> c < length ps \<Longrightarrow> \<exists>r. sweep ps t cs tms nx = Inr r"
proof (induction cs arbitrary: tms nx)
  case Nil
  then show ?case by simp
next
  case (Cons c cs)
  let ?tms = "if tms ! c < t then tms[c := t] else tms"
  from Cons.prems have "\<forall>c\<in>set cs. c < length ?tms \<and> c < length ps" by simp
  from Cons.IH [OF this] Cons.prems show ?case by (simp add: Let_def)
qed

text \<open>Termination: the frontier moves up a finite acyclic relation.\<close>

lemma climb_terminates:
  assumes "acyclic (edges ps)"
  shows "\<exists>y. climb ps tms cl t = Some y"
proof -
  have wf: "wf (max_ext ((edges ps)\<inverse>))"
    using assms by (intro max_ext_wf finite_acyclic_wf_converse finite_edges)
  show ?thesis
  proof (induction "set cl" arbitrary: cl tms t rule: wf_induct_rule [OF wf])
    case 1
    show ?case
    proof (cases "cl = []")
      case True
      then show ?thesis by (simp add: climb.simps)
    next
      case False
      show ?thesis
      proof (cases "sweep ps t cl tms []")
        case (Inl e)
        with False show ?thesis by (simp add: climb.simps)
      next
        case (Inr r)
        obtain tms' nx where r: "r = (tms', nx)" by (cases r)
        from sweep_Inr [of ps t cl tms "[]" tms' nx] Inr r
        have nx: "set nx = edges ps `` set cl" by simp
        have "(set (remdups nx), set cl) \<in> max_ext ((edges ps)\<inverse>)"
        proof (rule max_extI)
          show "finite (set (remdups nx))" by (rule finite_set)
          show "finite (set cl)" by (rule finite_set)
          show "set cl \<noteq> {}" using False by simp
          show "\<exists>y\<in>set cl. (x, y) \<in> (edges ps)\<inverse>" if "x \<in> set (remdups nx)" for x
            using that nx by auto
        qed
        from 1 [OF this] obtain y where "climb ps tms' (remdups nx) (t + 1) = Some y"
          by blast
        with False Inr r have "climb ps tms cl t = Some y"
          by (subst climb.simps) simp
        then show ?thesis by blast
      qed
    qed
  qed
qed

lemma frontier_0: "frontier n ps 0 = set (probands n ps)"
  by (simp add: frontier_def)

lemma frontier_Suc: "frontier n ps (Suc t) = edges (rows ps) `` frontier n ps t"
  by (simp add: frontier_def relcomp_Image)

lemma edges_bound: "index_matrix n ps \<Longrightarrow> (c, p) \<in> edges (rows ps) \<Longrightarrow> c < n \<and> p < n"
proof -
  assume im: "index_matrix n ps" and e: "(c, p) \<in> edges (rows ps)"
  from e have c: "c < length (rows ps)" and p: "int p \<in> set (rows ps ! c)"
    by (simp_all add: edges_def)
  from im c have "list_all (\<lambda>p. p < int n) (rows ps ! c)"
    by (simp add: index_matrix_def list_all_length)
  with p have "int p < int n" unfolding list_all_iff by blast
  with im c show ?thesis by (simp add: index_matrix_def)
qed

lemma frontier_bound: "index_matrix n ps \<Longrightarrow> frontier n ps t \<subseteq> {..<n}"
proof (cases t)
  case 0
  then show ?thesis by (auto simp: frontier_0 set_probands)
next
  case (Suc s)
  assume "index_matrix n ps"
  then show ?thesis using Suc by (auto simp: frontier_Suc dest: edges_bound)
qed

lemma frontier_empty: "frontier n ps t = {} \<Longrightarrow> t \<le> s \<Longrightarrow> frontier n ps s = {}"
proof (induction s)
  case 0
  then show ?case by simp
next
  case (Suc s)
  show ?case
  proof (cases "t = Suc s")
    case True
    with Suc.prems show ?thesis by simp
  next
    case False
    with Suc have "frontier n ps s = {}" by simp
    then show ?thesis by (simp add: frontier_Suc)
  qed
qed

text \<open>In a finite acyclic genealogy every individual is on the wavefront at some level.\<close>

lemma every_individual_reached:
  assumes im: "index_matrix n ps" and ac: "acyclic (edges (rows ps))"
  shows "v < n \<Longrightarrow> \<exists>s. v \<in> frontier n ps s"
proof (induction v rule: wf_induct_rule [OF finite_acyclic_wf [OF finite_edges ac]])
  case (1 v)
  show ?case
  proof (cases "int v \<in> set (ravel ps)")
    case False
    with 1(2) have "v \<in> frontier n ps 0" by (simp add: frontier_0 set_probands)
    then show ?thesis by blast
  next
    case True
    then obtain row where "row \<in> set (rows ps)" "int v \<in> set row"
      by (auto simp: ravel_def)
    then obtain c where c: "c < length (rows ps)" "int v \<in> set (rows ps ! c)"
      by (auto simp: in_set_conv_nth)
    then have e: "(c, v) \<in> edges (rows ps)" by (simp add: edges_def)
    from c im have "c < n" by (simp add: index_matrix_def)
    from 1(1) [OF e this] obtain s where "c \<in> frontier n ps s" by blast
    with e have "v \<in> frontier n ps (Suc s)" by (auto simp: frontier_Suc)
    then show ?thesis by blast
  qed
qed

lemma climb_inv_step:
  assumes inv: "climb_inv n ps t tms" and cl: "set cl = frontier n ps t"
    and len: "length tms' = length tms"
    and upd: "\<forall>v<length tms. tms' ! v = (if v \<in> set cl then max (tms ! v) t else tms ! v)"
  shows "climb_inv n ps (Suc t) tms'"
proof -
  from inv have n: "length tms = n" by (simp add: climb_inv_def)
  have A: "s \<le> tms' ! v" if "v < n" "s < Suc t" "v \<in> frontier n ps s" for v s
  proof (cases "s = t")
    case True
    with that cl upd n show ?thesis by simp
  next
    case False
    with that inv have "s \<le> tms ! v" by (simp add: climb_inv_def)
    moreover from upd n that(1) have "tms ! v \<le> tms' ! v" by simp
    ultimately show ?thesis by simp
  qed
  have B: "tms' ! v < Suc t \<and> v \<in> frontier n ps (tms' ! v)" if "v < n" "tms' ! v \<noteq> 0" for v
  proof (cases "v \<in> set cl")
    case True
    from inv that(1) have "tms ! v = 0 \<or> tms ! v < t" by (auto simp: climb_inv_def)
    with True upd n that have "tms' ! v = t" by (auto simp: max_def)
    with True cl show ?thesis by simp
  next
    case False
    with upd n that have "tms' ! v = tms ! v" by simp
    with inv that show ?thesis by (auto simp: climb_inv_def)
  qed
  from A B len n show ?thesis unfolding climb_inv_def by blast
qed

lemma climb_correct:
  assumes im: "index_matrix n ps" and ac: "acyclic (edges (rows ps))"
  shows "set cl = frontier n ps t \<Longrightarrow> climb_inv n ps t tms \<Longrightarrow>
         \<exists>tms'. climb (rows ps) tms cl t = Some (Inr tms') \<and> length tms' = n \<and>
           (\<forall>v<n. (\<forall>s. v \<in> frontier n ps s \<longrightarrow> s \<le> tms' ! v) \<and>
                   (tms' ! v \<noteq> 0 \<longrightarrow> v \<in> frontier n ps (tms' ! v)))"
proof -
  have wf: "wf (max_ext ((edges (rows ps))\<inverse>))"
    using ac by (intro max_ext_wf finite_acyclic_wf_converse finite_edges)
  show "set cl = frontier n ps t \<Longrightarrow> climb_inv n ps t tms \<Longrightarrow>
         \<exists>tms'. climb (rows ps) tms cl t = Some (Inr tms') \<and> length tms' = n \<and>
           (\<forall>v<n. (\<forall>s. v \<in> frontier n ps s \<longrightarrow> s \<le> tms' ! v) \<and>
                   (tms' ! v \<noteq> 0 \<longrightarrow> v \<in> frontier n ps (tms' ! v)))"
  proof (induction "set cl" arbitrary: cl tms t rule: wf_induct_rule [OF wf])
    case 1
    note IH = 1(1) and cl = 1(2) and inv = 1(3)
    from inv have n: "length tms = n" by (simp add: climb_inv_def)
    show ?case
    proof (cases "cl = []")
      case True
      with cl have "frontier n ps t = {}" by simp
      then have empty: "frontier n ps s = {}" if "t \<le> s" for s
        using that by (rule frontier_empty)
      have "s \<le> tms ! v" if "v < n" "v \<in> frontier n ps s" for v s
      proof (cases "s < t")
        case True
        with inv that show ?thesis by (simp add: climb_inv_def)
      next
        case False
        with empty [of s] that show ?thesis by simp
      qed
      moreover have "v \<in> frontier n ps (tms ! v)" if "v < n" "tms ! v \<noteq> 0" for v
        using inv that by (simp add: climb_inv_def)
      moreover have "climb (rows ps) tms cl t = Some (Inr tms)"
        using True by (simp add: climb.simps)
      ultimately show ?thesis using n by blast
    next
      case False
      from cl frontier_bound [OF im, of t] im n
      have "\<forall>c\<in>set cl. c < length tms \<and> c < length (rows ps)"
        by (auto simp: index_matrix_def)
      from sweep_no_error [OF this, of t "[]"] obtain tms' nx where
        sw: "sweep (rows ps) t cl tms [] = Inr (tms', nx)" by force
      from sweep_Inr [OF sw]
      have nx: "set nx = edges (rows ps) `` set cl" and len: "length tms' = length tms"
        and upd: "\<forall>v<length tms. tms' ! v = (if v \<in> set cl then max (tms ! v) t else tms ! v)"
        by simp_all
      have less: "(set (remdups nx), set cl) \<in> max_ext ((edges (rows ps))\<inverse>)"
      proof (rule max_extI)
        show "finite (set (remdups nx))" by (rule finite_set)
        show "finite (set cl)" by (rule finite_set)
        show "set cl \<noteq> {}" using False by simp
        show "\<exists>y\<in>set cl. (x, y) \<in> (edges (rows ps))\<inverse>" if "x \<in> set (remdups nx)" for x
          using that nx by auto
      qed
      have cl': "set (remdups nx) = frontier n ps (t + 1)"
        using nx cl by (simp add: frontier_Suc)
      have inv': "climb_inv n ps (t + 1) tms'"
        using climb_inv_step [OF inv cl len upd] by simp
      from IH [OF less cl' inv'] obtain r where
        r: "climb (rows ps) tms' (remdups nx) (t + 1) = Some (Inr r)" "length r = n"
        "\<forall>v<n. (\<forall>s. v \<in> frontier n ps s \<longrightarrow> s \<le> r ! v) \<and>
                 (r ! v \<noteq> 0 \<longrightarrow> v \<in> frontier n ps (r ! v))"
        by blast
      from False sw r(1) have "climb (rows ps) tms cl t = Some (Inr r)"
        by (subst climb.simps) simp
      with r show ?thesis by blast
    qed
  qed
qed

lemma climb_inv_start: "climb_inv n ps 0 (replicate n 0)"
  by (simp add: climb_inv_def)

lemma get_times_correct:
  assumes im: "index_matrix (length ids) ps" and ac: "acyclic (edges (rows ps))"
  shows "\<exists>tms. get_times ids None (Some ps) False = Some (Inr tms) \<and>
           length tms = length ids \<and> (\<forall>v<length ids. longest_path (length ids) ps v (tms ! v))"
proof -
  let ?n = "length ids"
  from climb_correct [OF im ac, of "probands ?n ps" 0 "replicate ?n 0"]
  obtain tms where
    t: "climb (rows ps) (replicate ?n 0) (probands ?n ps) 0 = Some (Inr tms)" "length tms = ?n"
    "\<forall>v<?n. (\<forall>s. v \<in> frontier ?n ps s \<longrightarrow> s \<le> tms ! v) \<and>
             (tms ! v \<noteq> 0 \<longrightarrow> v \<in> frontier ?n ps (tms ! v))"
    using climb_inv_start [of ?n ps] by (auto simp: frontier_0)
  have "longest_path ?n ps v (tms ! v)" if v: "v < ?n" for v
  proof -
    from every_individual_reached [OF im ac v] obtain s where s: "v \<in> frontier ?n ps s"
      by blast
    with t(3) v have le: "s \<le> tms ! v" by blast
    have "v \<in> frontier ?n ps (tms ! v)"
    proof (cases "tms ! v = 0")
      case True
      with le s show ?thesis by simp
    next
      case False
      with t(3) v show ?thesis by blast
    qed
    moreover have "\<forall>j. v \<in> frontier ?n ps j \<longrightarrow> j \<le> tms ! v"
      using t(3) v by blast
    ultimately show ?thesis
      unfolding longest_path_def frontier_def by blast
  qed
  moreover have "get_times ids None (Some ps) False = Some (Inr tms)"
    using t(1) by (simp add: get_times_def)
  ultimately show ?thesis using t(2) by blast
qed

text \<open>A cycle that a proband reaches keeps the wavefront inhabited for ever.\<close>

lemma climb_diverges_aux:
  assumes im: "index_matrix n ps" and cyc: "(v, v) \<in> (edges (rows ps))\<^sup>+"
    and run: "climb ps0 tms0 cl0 t0 = Some y0"
  shows "\<not> (ps0 = rows ps \<and> length tms0 = n \<and> set cl0 \<subseteq> {..<n} \<and>
            (\<exists>w\<in>set cl0. (w, v) \<in> (edges (rows ps))\<^sup>*))"
proof (rule climb.raw_induct [where P = "\<lambda>ps' tms cl t y.
         \<not> (ps' = rows ps \<and> length tms = n \<and> set cl \<subseteq> {..<n} \<and>
            (\<exists>w\<in>set cl. (w, v) \<in> (edges (rows ps))\<^sup>*))", OF _ run])
  fix climb' ps' tms cl t y
  assume IH: "\<And>ps' tms cl t y. climb' ps' tms cl t = Some y \<Longrightarrow>
         \<not> (ps' = rows ps \<and> length tms = n \<and> set cl \<subseteq> {..<n} \<and>
            (\<exists>w\<in>set cl. (w, v) \<in> (edges (rows ps))\<^sup>*))"
    and eq: "(if cl = [] then Some (Inr tms)
      else case sweep ps' t cl tms [] of Inl e \<Rightarrow> Some (Inl e)
           | Inr r \<Rightarrow> climb' ps' (fst r) (remdups (snd r)) (t + 1)) = Some y"
  show "\<not> (ps' = rows ps \<and> length tms = n \<and> set cl \<subseteq> {..<n} \<and>
            (\<exists>w\<in>set cl. (w, v) \<in> (edges (rows ps))\<^sup>*))"
  proof
  assume a: "ps' = rows ps \<and> length tms = n \<and> set cl \<subseteq> {..<n} \<and>
            (\<exists>w\<in>set cl. (w, v) \<in> (edges (rows ps))\<^sup>*)"
  then have ps': "ps' = rows ps" and len: "length tms = n" and sub: "set cl \<subseteq> {..<n}"
    and ex: "\<exists>w\<in>set cl. (w, v) \<in> (edges (rows ps))\<^sup>*" by blast+
  from ex have ne: "cl \<noteq> []" by auto
  from sub len im ps' have "\<forall>c\<in>set cl. c < length tms \<and> c < length ps'"
    by (auto simp: index_matrix_def)
  from sweep_no_error [OF this, of t "[]"] obtain tms' nx where
    sw: "sweep ps' t cl tms [] = Inr (tms', nx)" by force
  from sweep_Inr [OF sw] ps'
  have nx: "set nx = edges (rows ps) `` set cl" and len': "length tms' = length tms"
    by simp_all
  from eq ne sw have rec: "climb' ps' tms' (remdups nx) (t + 1) = Some y" by simp
  have sub': "set (remdups nx) \<subseteq> {..<n}"
    using nx edges_bound [OF im] by auto
  from ex obtain w where w: "w \<in> set cl" "(w, v) \<in> (edges (rows ps))\<^sup>*" by blast
  from w(2) cyc have "(w, v) \<in> (edges (rows ps))\<^sup>+" by (rule rtrancl_trancl_trancl)
  then obtain x where x: "(w, x) \<in> edges (rows ps)" "(x, v) \<in> (edges (rows ps))\<^sup>*"
    by (blast dest: tranclD)
  from w(1) x(1) nx have "x \<in> set (remdups nx)" by auto
  with x(2) have ex': "\<exists>w\<in>set (remdups nx). (w, v) \<in> (edges (rows ps))\<^sup>*" by blast
  from IH [OF rec] ps' sub' ex' len len' show False by simp
  qed
qed

lemma climb_diverges:
  assumes "index_matrix n ps" and "(v, v) \<in> (edges (rows ps))\<^sup>+"
    and "a \<in> set (probands n ps)" and "(a, v) \<in> (edges (rows ps))\<^sup>*"
  shows "climb (rows ps) (replicate n 0) (probands n ps) 0 = None"
proof (cases "climb (rows ps) (replicate n 0) (probands n ps) 0")
  case None
  then show ?thesis .
next
  case (Some y)
  have "set (probands n ps) \<subseteq> {..<n}" by (auto simp: set_probands)
  with climb_diverges_aux [OF assms(1,2) Some] assms(3,4) show ?thesis by auto
qed

lemma parents_later_acyclic:
  assumes "parents_later ps"
  shows "acyclic (edges ps)"
proof -
  have sub: "edges ps \<subseteq> {(c, p). c < p}"
  proof
    fix e
    assume "e \<in> edges ps"
    then obtain c p where e: "e = (c, p)" "c < length ps" "int p \<in> set (ps ! c)"
      by (auto simp: edges_def)
    from e(2) have "(c, ps ! c) \<in> set (enumerate 0 ps)"
      by (simp add: in_set_enumerate_eq)
    with assms have "list_all (\<lambda>p. p < 0 \<or> int c < p) (ps ! c)"
      unfolding parents_later_def list_all_iff by blast
    with e(3) have "int p < 0 \<or> int c < int p" unfolding list_all_iff by blast
    with e(1) show "e \<in> {(c, p). c < p}" by simp
  qed
  have "(a, b) \<in> {(c, p). c < p}\<^sup>+ \<Longrightarrow> a < b" for a b :: nat
    by (induction rule: trancl.induct) auto
  then have "acyclic {(c, p :: nat). c < p}" by (auto simp: acyclic_def)
  from acyclic_subset [OF this sub] show ?thesis .
qed

text \<open>The inferred times pass \<open>check_times\<close>, so the result is the same with the check on.\<close>

lemma longest_path_no_violation:
  assumes lp: "\<forall>v<n. longest_path n ps v (tms ! v)" and im: "index_matrix n ps"
  shows "\<not> violation ps tms i k"
proof
  assume v: "violation ps tms i k"
  let ?p = "nat (rows ps ! i ! k)"
  from v have i: "i < length (rows ps)" and k: "k < length (rows ps ! i)"
    and nonneg: "rows ps ! i ! k \<ge> 0" and ge: "tms ! i \<ge> tms ! ?p"
    by (simp_all add: violation_def)
  from i k nonneg have e: "(i, ?p) \<in> edges (rows ps)" by (simp add: edges_def)
  from edges_bound [OF im e] have "i < n" "?p < n" by simp_all
  with lp have li: "longest_path n ps i (tms ! i)" and lp': "longest_path n ps ?p (tms ! ?p)"
    by simp_all
  from li obtain a where a: "a \<in> set (probands n ps)" "(a, i) \<in> edges (rows ps) ^^ (tms ! i)"
    unfolding longest_path_def by blast
  from a(2) e have "(a, ?p) \<in> edges (rows ps) ^^ Suc (tms ! i)" by auto
  with lp' a(1) have "Suc (tms ! i) \<le> tms ! ?p" unfolding longest_path_def by blast
  with ge show False by simp
qed

lemma get_times_correct_checked:
  assumes im: "index_matrix (length ids) ps" and ac: "acyclic (edges (rows ps))"
  shows "\<exists>tms. get_times ids None (Some ps) check = Some (Inr tms) \<and>
           length tms = length ids \<and> (\<forall>v<length ids. longest_path (length ids) ps v (tms ! v))"
proof -
  from get_times_correct [OF im ac] obtain tms where
    t: "get_times ids None (Some ps) False = Some (Inr tms)" "length tms = length ids"
    "\<forall>v<length ids. longest_path (length ids) ps v (tms ! v)"
    by blast
  have "check_times ids ps tms = Inr ()"
  proof (cases "check_times ids ps tms")
    case (Inl e)
    from im t(2) have "index_matrix (length tms) ps" by simp
    from check_times_Inl_violation [OF this _ Inl] t(2)
    obtain i k where "violation ps tms i k" by auto
    with longest_path_no_violation [OF t(3) im] show ?thesis by blast
  next
    case (Inr u)
    then show ?thesis by simp
  qed
  with t(1) have "get_times ids None (Some ps) check = Some (Inr tms)"
    by (auto simp: get_times_def split: option.splits sum.splits if_splits)
  with t show ?thesis by blast
qed

text \<open>
  C3. For a parent-index matrix of the data model whose parent relation is acyclic,
  \<open>get_times\<close> returns, and the time it gives each individual is the length of the
  longest path from any proband to that individual.
\<close>

theorem get_times_longest_path:
  assumes "index_matrix (length ids) ps" and "acyclic (edges (rows ps))"
  shows "\<exists>tms. get_times ids None (Some ps) check = Some (Inr tms) \<and>
           length tms = length ids \<and>
           (\<forall>v<length ids. longest_path (length ids) ps v (tms ! v))"
  using assms by (rule get_times_correct_checked)

lemma two_lineages_ok:
  "index_matrix 8 two_lineages" "acyclic (edges (rows two_lineages))"
proof -
  show "index_matrix 8 two_lineages"
    by (simp add: index_matrix_def two_lineages_def)
  have "parents_later (rows two_lineages)"
    by (simp add: parents_later_def two_lineages_def enumerate_eq_zip upt_rec)
  then show "acyclic (edges (rows two_lineages))" by (rule parents_later_acyclic)
qed

lemma two_lineages_paths:
  "(0, 7) \<in> edges (rows two_lineages) ^^ 2" "(2, 7) \<in> edges (rows two_lineages) ^^ 5"
proof -
  have e: "(0, 1) \<in> edges (rows two_lineages)" "(1, 7) \<in> edges (rows two_lineages)"
    "(2, 3) \<in> edges (rows two_lineages)" "(3, 4) \<in> edges (rows two_lineages)"
    "(4, 5) \<in> edges (rows two_lineages)" "(5, 6) \<in> edges (rows two_lineages)"
    "(6, 7) \<in> edges (rows two_lineages)"
    by (simp_all add: edges_def two_lineages_def)
  have "(0, 7) \<in> edges (rows two_lineages) O edges (rows two_lineages)"
    using e(1,2) by (rule relcompI)
  then show "(0, 7) \<in> edges (rows two_lineages) ^^ 2"
    by (simp add: numeral_2_eq_2)
  have "(2, 7) \<in> edges (rows two_lineages) ^^ Suc (Suc (Suc (Suc (Suc 0))))"
    using e(3-7) by (auto simp: relcomp_unfold)
  then show "(2, 7) \<in> edges (rows two_lineages) ^^ 5"
    by (simp add: eval_nat_numeral)
qed

theorem get_times_longest_path_witness:
  "index_matrix (length [1, 2, 3, 4, 5, 6, 7, 8 :: int]) two_lineages \<and>
   acyclic (edges (rows two_lineages)) \<and>
   (0, 7) \<in> edges (rows two_lineages) ^^ 2 \<and> (2, 7) \<in> edges (rows two_lineages) ^^ 5 \<and>
   get_times [1, 2, 3, 4, 5, 6, 7, 8] None (Some two_lineages) False =
     Some (Inr [0, 1, 0, 1, 2, 3, 4, 5]) \<and>
   longest_path 8 two_lineages 7 5"
proof -
  have len: "length [1, 2, 3, 4, 5, 6, 7, 8 :: int] = 8" by simp
  have im: "index_matrix (length [1, 2, 3, 4, 5, 6, 7, 8 :: int]) two_lineages"
    by (simp add: index_matrix_def two_lineages_def)
  have run: "get_times [1, 2, 3, 4, 5, 6, 7, 8] None (Some two_lineages) False =
     Some (Inr [0, 1, 0, 1, 2, 3, 4, 5])"
    by (simp add: get_times_def probands_def ravel_def climb.simps two_lineages_def)
  from get_times_longest_path [OF im two_lineages_ok(2), of False]
  have "\<exists>tms. get_times [1, 2, 3, 4, 5, 6, 7, 8] None (Some two_lineages) False =
           Some (Inr tms) \<and> length tms = 8 \<and>
           (\<forall>v<8. longest_path 8 two_lineages v (tms ! v))"
    unfolding len .
  with run
  have "\<forall>v<8. longest_path 8 two_lineages v ([0, 1, 0, 1, 2, 3, 4, 5] ! v)"
    by auto
  then have "(7::nat) < 8 \<longrightarrow> longest_path 8 two_lineages 7 ([0, 1, 0, 1, 2, 3, 4, 5] ! 7)"
    by (rule spec)
  then have "longest_path 8 two_lineages 7 5" by simp
  with im two_lineages_ok(2) two_lineages_paths run show ?thesis by blast
qed

text \<open>
  C9 (as amended). With an acyclic parent relation the climb of \<open>get_times\<close> terminates
  (in the times, or in the error of an out-of-range access). On a matrix of the data model
  in which some proband reaches a cycle, the climb runs forever.
\<close>

theorem get_times_terminates_acyclic:
  "(acyclic (edges (rows ps)) \<longrightarrow> (\<exists>y. get_times ids None (Some ps) check = Some y)) \<and>
   (index_matrix (length ids) ps \<and>
    (\<exists>a\<in>set (probands (length ids) ps). \<exists>v.
        (a, v) \<in> (edges (rows ps))\<^sup>* \<and> (v, v) \<in> (edges (rows ps))\<^sup>+) \<longrightarrow>
    get_times ids None (Some ps) check = None)"
proof (intro conjI impI)
  assume "acyclic (edges (rows ps))"
  from climb_terminates [OF this]
  obtain y where "climb (rows ps) (replicate (length ids) 0) (probands (length ids) ps) 0 = Some y"
    by blast
  then show "\<exists>y. get_times ids None (Some ps) check = Some y"
    by (auto simp: get_times_def split: sum.splits)
next
  assume a: "index_matrix (length ids) ps \<and>
    (\<exists>a\<in>set (probands (length ids) ps). \<exists>v.
        (a, v) \<in> (edges (rows ps))\<^sup>* \<and> (v, v) \<in> (edges (rows ps))\<^sup>+)"
  then obtain p v where "p \<in> set (probands (length ids) ps)"
    "(p, v) \<in> (edges (rows ps))\<^sup>*" "(v, v) \<in> (edges (rows ps))\<^sup>+" by blast
  with a climb_diverges [of "length ids" ps v p]
  have "climb (rows ps) (replicate (length ids) 0) (probands (length ids) ps) 0 = None"
    by blast
  then show "get_times ids None (Some ps) check = None"
    by (simp add: get_times_def)
qed

theorem get_times_terminates_acyclic_witness:
  "acyclic (edges (rows two_lineages)) \<and>
   (\<exists>y. get_times [1, 2, 3, 4, 5, 6, 7, 8] None (Some two_lineages) True = Some y) \<and>
   index_matrix (length [1, 2, 3 :: int]) looped \<and>
   0 \<in> set (probands (length [1, 2, 3 :: int]) looped) \<and>
   (0, 1) \<in> (edges (rows looped))\<^sup>* \<and> (1, 1) \<in> (edges (rows looped))\<^sup>+ \<and>
   get_times [1, 2, 3] None (Some looped) True = None"
proof -
  have im: "index_matrix (length [1, 2, 3 :: int]) looped"
    by (simp add: index_matrix_def looped_def)
  have p: "0 \<in> set (probands (length [1, 2, 3 :: int]) looped)"
    by (simp add: probands_def ravel_def looped_def)
  have e: "(0, 1) \<in> edges (rows looped)" "(1, 2) \<in> edges (rows looped)"
    "(2, 1) \<in> edges (rows looped)"
    by (simp_all add: edges_def looped_def)
  from e(1) have r: "(0, 1) \<in> (edges (rows looped))\<^sup>*" by (rule r_into_rtrancl)
  from e(2,3) have c: "(1, 1) \<in> (edges (rows looped))\<^sup>+" by (rule trancl_into_trancl2 [OF _ r_into_trancl])
  from get_times_terminates_acyclic [of two_lineages "[1, 2, 3, 4, 5, 6, 7, 8]" True]
    two_lineages_ok(2)
  have A: "\<exists>y. get_times [1, 2, 3, 4, 5, 6, 7, 8] None (Some two_lineages) True = Some y"
    by blast
  from get_times_terminates_acyclic [of looped "[1, 2, 3]" True] im p r c
  have B: "get_times [1, 2, 3] None (Some looped) True = None"
    by blast
  from two_lineages_ok(2) A im p r c B show ?thesis by blast
qed

text \<open>
  C9 as stated fails: a self-parent alone does not make the climb run forever. The only
  individual is its own parent, so it is no proband, the wavefront starts empty and the
  loop is never entered.
\<close>

theorem get_times_self_parent_returns:
  "(0, 0) \<in> edges (rows self_parent) \<and> \<not> acyclic (edges (rows self_parent)) \<and>
   get_times [1] None (Some self_parent) False = Some (Inr [0])"
proof -
  have e: "(0, 0) \<in> edges (rows self_parent)"
    by (simp add: edges_def self_parent_def)
  then have "(0, 0) \<in> (edges (rows self_parent))\<^sup>+" by (rule r_into_trancl)
  then have "\<not> acyclic (edges (rows self_parent))" unfolding acyclic_def by blast
  moreover have "get_times [1] None (Some self_parent) False = Some (Inr [0])"
    by (simp add: get_times_def probands_def ravel_def climb.simps self_parent_def)
  ultimately show ?thesis using e by blast
qed


subsection \<open>The unbranched lineage\<close>

lemma rows_lineage_nth:
  "i < k \<Longrightarrow> rows (lineage k) ! i = [int (Suc i), -1]"
  "rows (lineage k) ! k = [-1, -1]"
  "length (rows (lineage k)) = Suc k"
  by (simp_all add: lineage_def nth_append)

lemma edges_lineage: "edges (rows (lineage k)) = {(i, Suc i) | i. i < k}"
proof (intro set_eqI iffI)
  fix e
  assume "e \<in> edges (rows (lineage k))"
  then obtain c p where e: "e = (c, p)" "c < Suc k" "int p \<in> set (rows (lineage k) ! c)"
    by (auto simp: edges_def rows_lineage_nth(3))
  show "e \<in> {(i, Suc i) | i. i < k}"
  proof (cases "c < k")
    case True
    with e(3) have "p = Suc c" by (simp add: rows_lineage_nth(1))
    with True e(1) show ?thesis by simp
  next
    case False
    with e(2) have "c = k" by simp
    with e(3) show ?thesis by (simp add: rows_lineage_nth(2))
  qed
next
  fix e
  assume "e \<in> {(i, Suc i) | i. i < k}"
  then obtain i where "e = (i, Suc i)" "i < k" by blast
  then show "e \<in> edges (rows (lineage k))"
    by (simp add: edges_def rows_lineage_nth)
qed

lemma lineage_ok: "index_matrix (Suc k) (lineage k)" "acyclic (edges (rows (lineage k)))"
proof -
  show "index_matrix (Suc k) (lineage k)"
    by (simp add: index_matrix_def lineage_def list_all_iff)
  have "(a, b) \<in> {(i, Suc i) | i. i < k}\<^sup>+ \<Longrightarrow> a < b" for a b
    by (induction rule: trancl.induct) auto
  then have "(a, a) \<notin> {(i, Suc i) | i. i < k}\<^sup>+" for a
    by (meson less_irrefl)
  then show "acyclic (edges (rows (lineage k)))"
    unfolding acyclic_def edges_lineage by blast
qed

lemma probands_lineage: "set (probands (Suc k) (lineage k)) = {0}"
proof -
  have r: "set (ravel (lineage k)) = insert (-1) ((\<lambda>i. int (Suc i)) ` {..<k})"
    by (auto simp: ravel_def lineage_def)
  have "int i \<in> set (ravel (lineage k)) \<longleftrightarrow> i \<noteq> 0" if "i < Suc k" for i
  proof (cases i)
    case 0
    then show ?thesis by (auto simp: r)
  next
    case (Suc j)
    with that have "j < k" by simp
    with Suc show ?thesis by (auto simp: r)
  qed
  then show ?thesis by (auto simp: set_probands)
qed

lemma lineage_path: "(0, v) \<in> edges (rows (lineage k)) ^^ j \<Longrightarrow> v = j"
proof (induction j arbitrary: v)
  case 0
  then show ?case by simp
next
  case (Suc j)
  then obtain w where w: "(0, w) \<in> edges (rows (lineage k)) ^^ j"
    "(w, v) \<in> edges (rows (lineage k))" by auto
  from Suc.IH [OF w(1)] have "w = j" .
  moreover from w(2) have "v = Suc w" unfolding edges_lineage by blast
  ultimately show ?case by simp
qed

text \<open>
  An instance: for a single unbranched lineage of depth \<open>k\<close> the inferred times are
  exactly \<open>0, 1, \<dots>, k\<close>.
\<close>

lemma get_times_lineage:
  assumes "length ids = Suc k"
  shows "get_times ids None (Some (lineage k)) check = Some (Inr [0..<Suc k])"
proof -
  have im: "index_matrix (length ids) (lineage k)"
    using lineage_ok(1) [of k] assms by simp
  from get_times_correct_checked [OF im lineage_ok(2), of check]
  obtain tms where t: "get_times ids None (Some (lineage k)) check = Some (Inr tms)"
    "length tms = Suc k" "\<forall>v<Suc k. longest_path (Suc k) (lineage k) v (tms ! v)"
    unfolding assms by blast
  have "tms ! v = [0..<Suc k] ! v" if "v < Suc k" for v
  proof -
    from t(3) that have "(0, v) \<in> edges (rows (lineage k)) ^^ (tms ! v)"
      unfolding longest_path_def probands_lineage by blast
    from lineage_path [OF this] that show ?thesis
      by (simp only: nth_upt add_0 minus_nat.diff_0)
  qed
  with t(2) have "tms = [0..<Suc k]" by (intro nth_equalityI) simp_all
  with t(1) show ?thesis by simp
qed


subsection \<open>\<^verbatim>\<open>sim_pedigree\<close>\<close>

lemma length_ragged_rows: "length (ragged_rows flat (map (\<lambda>i. i * 2) [0..<N + 1])) = N"
  by (simp add: ragged_rows_def)

lemma ragged_rows_nth:
  assumes "i < N"
  shows "ragged_rows flat (map (\<lambda>i. i * 2) [0..<N + 1]) ! i = take 2 (drop (i * 2) flat)"
proof -
  let ?offs = "map (\<lambda>i. i * 2) [0..<N + 1]"
  from assms have a: "?offs ! i = i * 2" by (simp del: upt_Suc)
  from assms have b: "?offs ! Suc i = Suc i * 2" by (simp del: upt_Suc)
  have "ragged_rows flat ?offs ! i = take (?offs ! Suc i - ?offs ! i) (drop (?offs ! i) flat)"
    using assms unfolding ragged_rows_def by (simp del: upt_Suc)
  also have "\<dots> = take 2 (drop (i * 2) flat)" unfolding a b by simp
  finally show ?thesis .
qed

lemma ragged_row_props:
  assumes "i < N" and "length flat = 2 * N"
  shows "length (ragged_rows flat (map (\<lambda>i. i * 2) [0..<N + 1]) ! i) = 2"
    and "set (ragged_rows flat (map (\<lambda>i. i * 2) [0..<N + 1]) ! i) \<subseteq> set flat"
proof -
  note eq = ragged_rows_nth [OF assms(1), of flat]
  from assms have "i * 2 + 2 \<le> length flat" by simp
  then have "length (take 2 (drop (i * 2) flat)) = 2" by simp
  then show "length (ragged_rows flat (map (\<lambda>i. i * 2) [0..<N + 1]) ! i) = 2"
    unfolding eq .
  have "set (take 2 (drop (i * 2) flat)) \<subseteq> set (drop (i * 2) flat)"
    by (rule set_take_subset)
  also have "\<dots> \<subseteq> set flat" by (rule set_drop_subset)
  finally show "set (ragged_rows flat (map (\<lambda>i. i * 2) [0..<N + 1]) ! i) \<subseteq> set flat"
    unfolding eq .
qed

lemma choice_flat_props:
  "length (choice_flat rng start pop N) = 2 * N"
  "pop \<noteq> [] \<Longrightarrow> set (choice_flat rng start pop N) \<subseteq> set pop"
  by (auto simp: choice_flat_def)

lemma length_doubled: "length (concat (map (\<lambda>p. [p, p]) xs)) = 2 * length xs"
  by (induction xs) simp_all

lemma doubled_nth: "k < 2 * length xs \<Longrightarrow> concat (map (\<lambda>p. [p, p]) xs) ! k = xs ! (k div 2)"
proof (induction xs arbitrary: k)
  case Nil
  then show ?case by simp
next
  case (Cons x xs)
  show ?case
  proof (cases "k < 2")
    case True
    then have "k = 0 \<or> k = 1" by arith
    then show ?thesis by auto
  next
    case False
    then obtain j where j: "k = Suc (Suc j)" by (metis not_less_eq numeral_2_eq_2 less_Suc_eq_0_disj not0_implies_Suc)
    with Cons.prems have "j < 2 * length xs" by simp
    from Cons.IH [OF this] j show ?thesis by simp
  qed
qed

lemma div_in_block:
  assumes "g * M \<le> (r::nat)" and "r < Suc g * M"
  shows "r div M = g"
  using assms by (intro div_nat_eqI) (simp_all add: mult.commute)

lemma div_below_block:
  assumes "(r::nat) < g * M" and "0 < M"
  shows "r div M < g"
  using assms by (simp add: less_mult_imp_div_less)

lemma sim_inv_start: "sim_inv N E 0 (initial_state sl)"
  by (simp add: sim_inv_def initial_state_def)

lemma sim_inv_step:
  assumes inv: "sim_inv N E g st" and g: "g \<le> E" and N: "0 < N"
  shows "sim_inv N E (Suc g) (generation rng N (int E - int g) st)"
proof -
  define st' where "st' = generation rng N (int E - int g) st"
  define flat where "flat = choice_flat rng (drawn st) (population st) N"
  define rws where "rws = ragged_rows flat (map (\<lambda>i. i * 2) [0..<N + 1])"
  define progeny where "progeny = map (\<lambda>i. int (length (individuals (tabs st))) + int i) [0..<N]"
  define fl where "fl = (if int E - int g > 0 then 0 else NODE_IS_SAMPLE)"
  define mkn where "mkn = (\<lambda>p. \<lparr>node_flags = fl, node_time = int E - int g,
                                   node_population = 0, node_individual = p\<rparr>)"
  let ?inds = "individuals (tabs st)" and ?nodes = "nodes (tabs st)"
  from inv have len_i: "length ?inds = g * N" and len_n: "length ?nodes = 2 * (g * N)"
    and pop: "population st = (if g = 0 then [NULL] else map int [(g - 1) * N..<g * N])"
    and old_rows: "\<forall>r<g * N. length (ind_parents (?inds ! r)) = 2 \<and> ind_flags (?inds ! r) = 0 \<and>
         (\<forall>p\<in>set (ind_parents (?inds ! r)).
            if r < N then p = NULL else in_generation N (r div N - 1) p)"
    and old_nodes: "\<forall>k<2 * (g * N). ?nodes ! k =
           \<lparr>node_flags = (if k div (2 * N) = E then NODE_IS_SAMPLE else 0),
            node_time = int E - int (k div (2 * N)),
            node_population = 0, node_individual = int (k div 2)\<rparr>"
    unfolding sim_inv_def by blast+
  have inds': "individuals (tabs st') = ?inds @ map (\<lambda>ps. \<lparr>ind_flags = 0, ind_parents = ps\<rparr>) rws"
    unfolding st'_def generation_def Let_def rws_def flat_def by simp
  have nodes': "nodes (tabs st') = ?nodes @ map mkn (concat (map (\<lambda>p. [p, p]) progeny))"
    unfolding st'_def generation_def Let_def mkn_def fl_def progeny_def by simp
  have pop': "population st' = progeny"
    unfolding st'_def generation_def Let_def progeny_def by simp
  have len_rws: "length rws = N" unfolding rws_def by (rule length_ragged_rows)
  have len_flat: "length flat = 2 * N" unfolding flat_def by (rule choice_flat_props(1))
  have len_prog: "length progeny = N" unfolding progeny_def by simp
  have prog_nth: "progeny ! i = int (g * N + i)" if "i < N" for i
    using that len_i unfolding progeny_def by simp
  have pop_ne: "population st \<noteq> []" using pop N
    by (cases g) (simp_all add: NULL_def)
  have flat_sub: "set flat \<subseteq> set (population st)"
    unfolding flat_def using pop_ne by (rule choice_flat_props(2))
  have fl: "fl = (if g = E then NODE_IS_SAMPLE else 0)"
    using g unfolding fl_def by auto
  \<comment> \<open>the lengths\<close>
  have A: "length (individuals (tabs st')) = Suc g * N"
    using inds' len_i len_rws by simp
  have B: "length (nodes (tabs st')) = 2 * (Suc g * N)"
    using nodes' len_n len_prog by (simp add: length_doubled)
  \<comment> \<open>the population\<close>
  have C: "population st' = (if Suc g = 0 then [NULL] else map int [(Suc g - 1) * N..<Suc g * N])"
  proof -
    have "progeny = map int [g * N..<Suc g * N]"
    proof (rule nth_equalityI)
      show "length progeny = length (map int [g * N..<Suc g * N])"
        using len_prog by simp
      show "progeny ! i = map int [g * N..<Suc g * N] ! i" if "i < length progeny" for i
        using that len_prog prog_nth by simp
    qed
    with pop' show ?thesis by simp
  qed
  \<comment> \<open>the individual rows\<close>
  have D: "length (ind_parents (individuals (tabs st') ! r)) = 2 \<and>
           ind_flags (individuals (tabs st') ! r) = 0 \<and>
           (\<forall>p\<in>set (ind_parents (individuals (tabs st') ! r)).
              if r < N then p = NULL else in_generation N (r div N - 1) p)"
    if r: "r < Suc g * N" for r
  proof (cases "r < g * N")
    case True
    with inds' len_i have same: "individuals (tabs st') ! r = ?inds ! r"
      by (simp add: nth_append)
    from old_rows True show ?thesis unfolding same by blast
  next
    case False
    define i where "i = r - g * N"
    from False r have i: "i < N" and r_eq: "r = g * N + i" unfolding i_def by simp_all
    from False r have rdiv: "r div N = g" by (intro div_in_block) simp_all
    have row: "individuals (tabs st') ! r = \<lparr>ind_flags = 0, ind_parents = rws ! i\<rparr>"
      using inds' len_i len_rws i r_eq by (simp add: nth_append)
    from ragged_row_props [OF i len_flat]
    have l2: "length (rws ! i) = 2" and sub: "set (rws ! i) \<subseteq> set flat"
      unfolding rws_def by simp_all
    have "if r < N then p = NULL else in_generation N (r div N - 1) p"
      if p: "p \<in> set (rws ! i)" for p
    proof (cases g)
      case 0
      with pop have "population st = [NULL]" by simp
      with p sub flat_sub have "p = NULL" by auto
      moreover from 0 r have "r < N" by simp
      ultimately show ?thesis by simp
    next
      case (Suc h)
      with pop have "population st = map int [h * N..<Suc h * N]" by simp
      with p sub flat_sub have "p \<in> int ` {h * N..<Suc h * N}" by auto
      then obtain x where x: "p = int x" "h * N \<le> x" "x < Suc h * N" by auto
      from x(2) have "int (h * N) \<le> int x" by (simp only: of_nat_le_iff)
      moreover from x(3) have "int x < int (Suc h * N)" by (simp only: of_nat_less_iff)
      ultimately have "in_generation N h p" unfolding in_generation_def x(1) by blast
      moreover from Suc False have "\<not> r < N" by simp
      moreover from rdiv Suc have "r div N - 1 = h" by simp
      ultimately show ?thesis by simp
    qed
    then have "\<forall>p\<in>set (rws ! i).
        if r < N then p = NULL else in_generation N (r div N - 1) p" by blast
    with l2 show ?thesis unfolding row by simp
  qed
  \<comment> \<open>the node rows\<close>
  have E: "nodes (tabs st') ! k =
           \<lparr>node_flags = (if k div (2 * N) = E then NODE_IS_SAMPLE else 0),
            node_time = int E - int (k div (2 * N)),
            node_population = 0, node_individual = int (k div 2)\<rparr>"
    if k: "k < 2 * (Suc g * N)" for k
  proof (cases "k < 2 * (g * N)")
    case True
    with nodes' len_n have same: "nodes (tabs st') ! k = ?nodes ! k"
      by (simp add: nth_append)
    from old_nodes True show ?thesis unfolding same by blast
  next
    case False
    define j where "j = k - 2 * (g * N)"
    from False k have j: "j < 2 * N" and k_eq: "k = 2 * (g * N) + j" unfolding j_def by simp_all
    have "g * (2 * N) \<le> k" "k < Suc g * (2 * N)" using False k by simp_all
    then have kdiv: "k div (2 * N) = g" by (rule div_in_block)
    from j have j2: "j div 2 < N" by simp
    have k2: "k div 2 = g * N + j div 2" unfolding k_eq by simp
    have "nodes (tabs st') ! k = mkn (concat (map (\<lambda>p. [p, p]) progeny) ! j)"
      using nodes' len_n len_prog j k_eq by (simp add: nth_append length_doubled)
    also have "concat (map (\<lambda>p. [p, p]) progeny) ! j = progeny ! (j div 2)"
      using j len_prog by (intro doubled_nth) simp
    also have "progeny ! (j div 2) = int (k div 2)"
      using prog_nth [OF j2] k2 by simp
    finally show ?thesis unfolding mkn_def fl kdiv by simp
  qed
  from A B C D E show ?thesis unfolding sim_inv_def st'_def by blast
qed

lemma times_down_nat: "times_down (int E) = rev (map int [0..<Suc E])"
  by (simp add: times_down_def nat_add_distrib del: upt_Suc)

lemma times_down_props:
  "length (times_down (int E)) = Suc E"
  "g \<le> E \<Longrightarrow> times_down (int E) ! g = int E - int g"
proof -
  show "length (times_down (int E)) = Suc E"
    unfolding times_down_nat by simp
  assume "g \<le> E"
  then have "rev (map int [0..<Suc E]) ! g = map int [0..<Suc E] ! (E - g)"
    by (subst rev_nth) (simp_all del: upt_Suc)
  also have "\<dots> = int (E - g)" using \<open>g \<le> E\<close> by (simp del: upt_Suc)
  finally show "times_down (int E) ! g = int E - int g"
    unfolding times_down_nat using \<open>g \<le> E\<close> by simp
qed

lemma after_generations_Suc:
  assumes "g \<le> E"
  shows "after_generations rng N E sl (Suc g) =
           generation rng N (int E - int g) (after_generations rng N E sl g)"
proof -
  from assms have "g < length (times_down (int E))" by (simp add: times_down_props(1))
  then have "take (Suc g) (times_down (int E)) =
             take g (times_down (int E)) @ [times_down (int E) ! g]"
    by (rule take_Suc_conv_app_nth)
  with assms show ?thesis
    unfolding after_generations_def by (simp add: times_down_props(2))
qed

lemma sim_inv_after:
  assumes "0 < N"
  shows "g \<le> Suc E \<Longrightarrow> sim_inv N E g (after_generations rng N E sl g)"
proof (induction g)
  case 0
  show ?case unfolding after_generations_def using sim_inv_start by simp
next
  case (Suc g)
  then have g: "g \<le> E" by simp
  with Suc.IH have "sim_inv N E g (after_generations rng N E sl g)" by simp
  from sim_inv_step [OF this g assms] show ?case
    unfolding after_generations_Suc [OF g] .
qed

lemma sim_pedigree_result:
  assumes "1 \<le> N" and "0 \<le> E"
  shows "sim_pedigree (Some N) sl rng (Some E) =
           Inr (tabs (after_generations rng (nat N) (nat E) sl (Suc (nat E))))"
    and "sim_inv (nat N) (nat E) (Suc (nat E))
           (after_generations rng (nat N) (nat E) sl (Suc (nat E)))"
proof -
  from assms(2) have E: "int (nat E) = E" by simp
  have len: "length (times_down E) = Suc (nat E)"
    using times_down_props(1) [of "nat E"] E by simp
  then have ne: "times_down E \<noteq> []" by auto
  have "after_generations rng (nat N) (nat E) sl (Suc (nat E)) =
          fold (generation rng (nat N)) (times_down E) (initial_state sl)"
    unfolding after_generations_def E using len by simp
  with ne assms(1) show "sim_pedigree (Some N) sl rng (Some E) =
           Inr (tabs (after_generations rng (nat N) (nat E) sl (Suc (nat E))))"
    by (simp add: sim_pedigree_def)
  from assms(1) have "0 < nat N" by simp
  from sim_inv_after [OF this, of "Suc (nat E)" "nat E"]
  show "sim_inv (nat N) (nat E) (Suc (nat E))
           (after_generations rng (nat N) (nat E) sl (Suc (nat E)))" by simp
qed

lemma two_elements: "length xs = 2 \<Longrightarrow> \<forall>x\<in>set xs. x = a \<Longrightarrow> xs = [a, a]"
  by (cases xs; cases "tl xs") auto

lemma sim_pedigree_small:
  "sim_pedigree (Some 2) None id (Some 1) =
     Inr \<lparr>sequence_length = -1, populations = 1,
          individuals = [\<lparr>ind_flags = 0, ind_parents = [-1, -1]\<rparr>,
                         \<lparr>ind_flags = 0, ind_parents = [-1, -1]\<rparr>,
                         \<lparr>ind_flags = 0, ind_parents = [0, 1]\<rparr>,
                         \<lparr>ind_flags = 0, ind_parents = [0, 1]\<rparr>],
          nodes = [\<lparr>node_flags = 0, node_time = 1, node_population = 0, node_individual = 0\<rparr>,
                   \<lparr>node_flags = 0, node_time = 1, node_population = 0, node_individual = 0\<rparr>,
                   \<lparr>node_flags = 0, node_time = 1, node_population = 0, node_individual = 1\<rparr>,
                   \<lparr>node_flags = 0, node_time = 1, node_population = 0, node_individual = 1\<rparr>,
                   \<lparr>node_flags = 1, node_time = 0, node_population = 0, node_individual = 2\<rparr>,
                   \<lparr>node_flags = 1, node_time = 0, node_population = 0, node_individual = 2\<rparr>,
                   \<lparr>node_flags = 1, node_time = 0, node_population = 0, node_individual = 3\<rparr>,
                   \<lparr>node_flags = 1, node_time = 0, node_population = 0, node_individual = 3\<rparr>]\<rparr>"
proof -
  have t: "times_down 1 = [1, 0]"
    by (simp add: times_down_def upt_rec)
  show ?thesis
    by (simp add: sim_pedigree_def t initial_state_def generation_def Let_def
          choice_flat_def ragged_rows_def NULL_def NODE_IS_SAMPLE_def upt_rec
          numeral_2_eq_2 [symmetric])
qed

lemma sim_pedigree_shape:
  assumes N: "1 \<le> N" and E: "0 \<le> E"
  shows "\<exists>tb. sim_pedigree (Some N) sl rng (Some E) = Inr tb \<and>
           length (individuals tb) = nat ((E + 1) * N) \<and>
           length (nodes tb) = nat (2 * (E + 1) * N) \<and>
           (\<forall>k<length (nodes tb).
              node_flags (nodes tb ! k) =
                (if node_time (nodes tb ! k) = 0 then NODE_IS_SAMPLE else 0) \<and>
              (node_time (nodes tb ! k) = 0 \<longleftrightarrow> nat (2 * E * N) \<le> k)) \<and>
           (\<forall>i<nat N. ind_parents (individuals tb ! i) = [NULL, NULL] \<and>
              node_time (nodes tb ! (2 * i)) = E \<and> node_time (nodes tb ! (2 * i + 1)) = E)"
proof -
  define n where "n = nat N"
  define e where "e = nat E"
  define tb where "tb = tabs (after_generations rng n e sl (Suc e))"
  from N have n: "0 < n" unfolding n_def by simp
  note res = sim_pedigree_result [OF N E, where sl = sl and rng = rng, folded n_def e_def tb_def]
  from res(2) have len_i: "length (individuals tb) = Suc e * n"
    and len_n: "length (nodes tb) = 2 * (Suc e * n)"
    and rws: "\<forall>r<Suc e * n. length (ind_parents (individuals tb ! r)) = 2 \<and>
         ind_flags (individuals tb ! r) = 0 \<and>
         (\<forall>p\<in>set (ind_parents (individuals tb ! r)).
            if r < n then p = NULL else in_generation n (r div n - 1) p)"
    and nds: "\<forall>k<2 * (Suc e * n). nodes tb ! k =
           \<lparr>node_flags = (if k div (2 * n) = e then NODE_IS_SAMPLE else 0),
            node_time = int e - int (k div (2 * n)),
            node_population = 0, node_individual = int (k div 2)\<rparr>"
    unfolding sim_inv_def tb_def by blast+
  have A: "length (individuals tb) = nat ((E + 1) * N)"
    using len_i N E unfolding n_def e_def by (simp add: nat_mult_distrib nat_add_distrib)
  have B: "length (nodes tb) = nat (2 * (E + 1) * N)"
    using len_n N E unfolding n_def e_def by (simp add: nat_mult_distrib nat_add_distrib)
  have C: "node_flags (nodes tb ! k) = (if node_time (nodes tb ! k) = 0 then NODE_IS_SAMPLE else 0) \<and>
           (node_time (nodes tb ! k) = 0 \<longleftrightarrow> nat (2 * E * N) \<le> k)"
    if "k < length (nodes tb)" for k
  proof -
    from that len_n have k: "k < Suc e * (2 * n)" by simp
    with n have le: "k div (2 * n) < Suc e" by (intro div_below_block) simp_all
    from nds that len_n have row: "nodes tb ! k =
           \<lparr>node_flags = (if k div (2 * n) = e then NODE_IS_SAMPLE else 0),
            node_time = int e - int (k div (2 * n)),
            node_population = 0, node_individual = int (k div 2)\<rparr>" by simp
    have t0: "node_time (nodes tb ! k) = 0 \<longleftrightarrow> k div (2 * n) = e"
      unfolding row using le by auto
    have "k div (2 * n) = e \<longleftrightarrow> e * (2 * n) \<le> k"
    proof
      assume "k div (2 * n) = e"
      then have "e * (2 * n) = k div (2 * n) * (2 * n)" by simp
      also have "\<dots> \<le> k" by (rule div_times_less_eq_dividend)
      finally show "e * (2 * n) \<le> k" .
    next
      assume "e * (2 * n) \<le> k"
      from this k show "k div (2 * n) = e" by (rule div_in_block)
    qed
    moreover have "nat (2 * E * N) = e * (2 * n)"
      using N E unfolding n_def e_def by (simp add: nat_mult_distrib)
    ultimately have "node_time (nodes tb ! k) = 0 \<longleftrightarrow> nat (2 * E * N) \<le> k"
      using t0 by simp
    moreover have "node_flags (nodes tb ! k) =
        (if node_time (nodes tb ! k) = 0 then NODE_IS_SAMPLE else 0)"
      unfolding t0 unfolding row by simp
    ultimately show ?thesis by blast
  qed
  have D: "ind_parents (individuals tb ! i) = [NULL, NULL] \<and>
           node_time (nodes tb ! (2 * i)) = E \<and> node_time (nodes tb ! (2 * i + 1)) = E"
    if i: "i < nat N" for i
  proof -
    from i have i': "i < n" unfolding n_def .
    then have "i < Suc e * n" by simp
    with rws have "length (ind_parents (individuals tb ! i)) = 2 \<and>
         ind_flags (individuals tb ! i) = 0 \<and>
         (\<forall>p\<in>set (ind_parents (individuals tb ! i)).
            if i < n then p = NULL else in_generation n (i div n - 1) p)" by blast
    with i' have "length (ind_parents (individuals tb ! i)) = 2"
      "\<forall>p\<in>set (ind_parents (individuals tb ! i)). p = NULL" by simp_all
    then have p: "ind_parents (individuals tb ! i) = [NULL, NULL]" by (rule two_elements)
    from i' have k1: "2 * i < 2 * (Suc e * n)" and k2: "2 * i + 1 < 2 * (Suc e * n)" by simp_all
    from i' have d1: "(2 * i) div (2 * n) = 0" and d2: "(2 * i + 1) div (2 * n) = 0" by simp_all
    from nds k1 d1 have "node_time (nodes tb ! (2 * i)) = int e" by simp
    moreover from nds k2 d2 have "node_time (nodes tb ! (2 * i + 1)) = int e" by simp
    ultimately show ?thesis using p E unfolding e_def by simp
  qed
  have R: "sim_pedigree (Some N) sl rng (Some E) = Inr tb"
    using res(1) unfolding tb_def .
  from C have C': "\<forall>k<length (nodes tb).
              node_flags (nodes tb ! k) =
                (if node_time (nodes tb ! k) = 0 then NODE_IS_SAMPLE else 0) \<and>
              (node_time (nodes tb ! k) = 0 \<longleftrightarrow> nat (2 * E * N) \<le> k)" by blast
  from D have D': "\<forall>i<nat N. ind_parents (individuals tb ! i) = [NULL, NULL] \<and>
              node_time (nodes tb ! (2 * i)) = E \<and> node_time (nodes tb ! (2 * i + 1)) = E"
    by blast
  from R A B C' D' show ?thesis by (intro exI [of _ tb] conjI)
qed

lemma sim_pedigree_parents:
  assumes N: "1 \<le> N" and E: "0 \<le> E"
  shows "\<exists>tb. sim_pedigree (Some N) sl rng (Some E) = Inr tb \<and>
           (\<forall>r<length (individuals tb). \<forall>p\<in>set (ind_parents (individuals tb ! r)).
              (if r < nat N then p = NULL
               else p \<noteq> NULL \<and> in_generation (nat N) (r div nat N - 1) p) \<and>
              (p \<noteq> NULL \<longrightarrow> 0 \<le> p \<and> p < int r))"
proof -
  define n where "n = nat N"
  define e where "e = nat E"
  define tb where "tb = tabs (after_generations rng n e sl (Suc e))"
  from N have n: "0 < n" unfolding n_def by simp
  note res = sim_pedigree_result [OF N E, where sl = sl and rng = rng, folded n_def e_def tb_def]
  from res(2) have len_i: "length (individuals tb) = Suc e * n"
    and rws: "\<forall>r<Suc e * n. length (ind_parents (individuals tb ! r)) = 2 \<and>
         ind_flags (individuals tb ! r) = 0 \<and>
         (\<forall>p\<in>set (ind_parents (individuals tb ! r)).
            if r < n then p = NULL else in_generation n (r div n - 1) p)"
    unfolding sim_inv_def tb_def by blast+
  have "(if r < n then p = NULL else p \<noteq> NULL \<and> in_generation n (r div n - 1) p) \<and>
        (p \<noteq> NULL \<longrightarrow> 0 \<le> p \<and> p < int r)"
    if r: "r < length (individuals tb)" and p: "p \<in> set (ind_parents (individuals tb ! r))" for r p
  proof (cases "r < n")
    case True
    from r len_i have "r < Suc e * n" by simp
    with rws have "\<forall>p\<in>set (ind_parents (individuals tb ! r)).
            if r < n then p = NULL else in_generation n (r div n - 1) p" by blast
    with p True have "p = NULL" by auto
    with True show ?thesis by simp
  next
    case False
    from r len_i have "r < Suc e * n" by simp
    with rws have "\<forall>p\<in>set (ind_parents (individuals tb ! r)).
            if r < n then p = NULL else in_generation n (r div n - 1) p" by blast
    with p False have g: "in_generation n (r div n - 1) p" by auto
    from False n have "0 < r div n" by (simp add: div_greater_zero_iff)
    then have s: "Suc (r div n - 1) = r div n" by simp
    from g have lo': "int ((r div n - 1) * n) \<le> p" and hi: "p < int (r div n * n)"
      unfolding in_generation_def s by blast+
    have "0 \<le> int ((r div n - 1) * n)" by (rule of_nat_0_le_iff)
    from this lo' have lo: "0 \<le> p" by (rule order_trans)
    have "r div n * n \<le> r" by (rule div_times_less_eq_dividend)
    then have "int (r div n * n) \<le> int r" by (simp only: of_nat_le_iff)
    with hi have "p < int r" by (rule less_le_trans)
    with lo g False show ?thesis by (simp add: NULL_def)
  qed
  then have "\<forall>r<length (individuals tb). \<forall>p\<in>set (ind_parents (individuals tb ! r)).
              (if r < n then p = NULL
               else p \<noteq> NULL \<and> in_generation n (r div n - 1) p) \<and>
              (p \<noteq> NULL \<longrightarrow> 0 \<le> p \<and> p < int r)" by blast
  moreover have "sim_pedigree (Some N) sl rng (Some E) = Inr tb"
    using res(1) unfolding tb_def .
  ultimately show ?thesis unfolding n_def by (intro exI [of _ tb] conjI)
qed

text \<open>
  C4. For a population size \<open>N \<ge> 1\<close> and an end time \<open>E \<ge> 0\<close>, \<open>sim_pedigree\<close> returns
  tables with \<open>(E + 1) * N\<close> individual rows and \<open>2 * (E + 1) * N\<close> node rows; a node row
  carries the sample flag exactly when its time is 0, which is exactly in the final
  generation (the last \<open>2 * N\<close> node rows), and has flag 0 otherwise; every individual
  of the founder generation (the first \<open>N\<close> rows, whose nodes have time \<open>E\<close>) has both
  parent slots equal to the sentinel.
\<close>

theorem sim_pedigree_row_counts:
  assumes "1 \<le> N" and "0 \<le> E"
  shows "\<exists>tb. sim_pedigree (Some N) sl rng (Some E) = Inr tb \<and>
           length (individuals tb) = nat ((E + 1) * N) \<and>
           length (nodes tb) = nat (2 * (E + 1) * N) \<and>
           (\<forall>k<length (nodes tb).
              node_flags (nodes tb ! k) =
                (if node_time (nodes tb ! k) = 0 then NODE_IS_SAMPLE else 0) \<and>
              (node_time (nodes tb ! k) = 0 \<longleftrightarrow> nat (2 * E * N) \<le> k)) \<and>
           (\<forall>i<nat N. ind_parents (individuals tb ! i) = [NULL, NULL] \<and>
              node_time (nodes tb ! (2 * i)) = E \<and> node_time (nodes tb ! (2 * i + 1)) = E)"
  using assms by (rule sim_pedigree_shape)

theorem sim_pedigree_row_counts_witness:
  "1 \<le> (4::int) \<and> 0 \<le> (2::int) \<and>
   (\<exists>tb. sim_pedigree (Some 4) None id (Some 2) = Inr tb \<and>
      length (individuals tb) = 12 \<and> length (nodes tb) = 24 \<and>
      (\<forall>k<24. node_flags (nodes tb ! k) = (if 16 \<le> k then NODE_IS_SAMPLE else 0)) \<and>
      (\<forall>i<4. ind_parents (individuals tb ! i) = [NULL, NULL]))"
proof -
  have h: "1 \<le> (4::int)" "0 \<le> (2::int)" by simp_all
  from sim_pedigree_row_counts [OF h, where sl = None and rng = id]
  obtain tb where tb: "sim_pedigree (Some 4) None id (Some 2) = Inr tb"
    "length (individuals tb) = nat ((2 + 1) * 4)"
    "length (nodes tb) = nat (2 * (2 + 1) * 4)"
    "\<forall>k<length (nodes tb).
        node_flags (nodes tb ! k) =
          (if node_time (nodes tb ! k) = 0 then NODE_IS_SAMPLE else 0) \<and>
        (node_time (nodes tb ! k) = 0 \<longleftrightarrow> nat (2 * 2 * 4) \<le> k)"
    "\<forall>i<nat 4. ind_parents (individuals tb ! i) = [NULL, NULL] \<and>
        node_time (nodes tb ! (2 * i)) = 2 \<and> node_time (nodes tb ! (2 * i + 1)) = 2"
    by blast
  from tb(2) have a: "length (individuals tb) = 12" by simp
  from tb(3) have b: "length (nodes tb) = 24" by simp
  from tb(4) b have c: "\<forall>k<24. node_flags (nodes tb ! k) = (if 16 \<le> k then NODE_IS_SAMPLE else 0)"
    by simp
  from tb(5) have d: "\<forall>i<4. ind_parents (individuals tb ! i) = [NULL, NULL]" by simp
  from tb(1) a b c d h show ?thesis by blast
qed

text \<open>
  C10. In the individual rows that \<open>sim_pedigree\<close> emits, every parent of a founder is the
  sentinel, and every parent of a later individual is the index of an individual of the
  generation immediately before its own; so every parent index other than the sentinel
  is a row index strictly smaller than that of the child.
\<close>

theorem sim_pedigree_parents_precede:
  assumes "1 \<le> N" and "0 \<le> E"
  shows "\<exists>tb. sim_pedigree (Some N) sl rng (Some E) = Inr tb \<and>
           (\<forall>r<length (individuals tb). \<forall>p\<in>set (ind_parents (individuals tb ! r)).
              (if r < nat N then p = NULL
               else p \<noteq> NULL \<and> in_generation (nat N) (r div nat N - 1) p) \<and>
              (p \<noteq> NULL \<longrightarrow> 0 \<le> p \<and> p < int r))"
  using assms by (rule sim_pedigree_parents)

theorem sim_pedigree_parents_precede_witness:
  "1 \<le> (2::int) \<and> 0 \<le> (1::int) \<and>
   ind_parents (individuals (projr (sim_pedigree (Some 2) None id (Some 1))) ! 0) = [NULL, NULL] \<and>
   ind_parents (individuals (projr (sim_pedigree (Some 2) None id (Some 1))) ! 3) = [0, 1] \<and>
   in_generation 2 0 0 \<and> in_generation 2 0 1 \<and>
   (\<exists>tb. sim_pedigree (Some 2) None id (Some 1) = Inr tb \<and>
      (\<forall>r<length (individuals tb). \<forall>p\<in>set (ind_parents (individuals tb ! r)).
          p \<noteq> NULL \<longrightarrow> 0 \<le> p \<and> p < int r))"
proof -
  have h: "1 \<le> (2::int)" "0 \<le> (1::int)" by simp_all
  from sim_pedigree_parents_precede [OF h, where sl = None and rng = id]
  have e: "\<exists>tb. sim_pedigree (Some 2) None id (Some 1) = Inr tb \<and>
      (\<forall>r<length (individuals tb). \<forall>p\<in>set (ind_parents (individuals tb ! r)).
          p \<noteq> NULL \<longrightarrow> 0 \<le> p \<and> p < int r)"
    by blast
  have r: "ind_parents (individuals (projr (sim_pedigree (Some 2) None id (Some 1))) ! 0) =
             [NULL, NULL]"
    "ind_parents (individuals (projr (sim_pedigree (Some 2) None id (Some 1))) ! 3) = [0, 1]"
    by (simp_all add: sim_pedigree_small NULL_def)
  have g: "in_generation 2 0 0" "in_generation 2 0 1"
    by (simp_all add: in_generation_def)
  from h e r g show ?thesis by blast
qed


subsection \<open>\<^verbatim>\<open>parse_fam\<close>\<close>

lemma build_id_map_duplicate:
  "\<not> distinct (map fam_key ls) \<or> (\<exists>l\<in>set ls. m (fam_key l) \<noteq> None) \<Longrightarrow>
   build_id_map m i ls = Inl (ValueError DuplicatePlinkId)"
proof (induction ls arbitrary: m i)
  case Nil
  then show ?case by simp
next
  case (Cons l ls)
  show ?case
  proof (cases "m (fam_key l) = None")
    case False
    then show ?thesis by (simp add: Let_def)
  next
    case True
    let ?m = "m(fam_key l \<mapsto> int i)"
    have "\<not> distinct (map fam_key ls) \<or> (\<exists>l'\<in>set ls. ?m (fam_key l') \<noteq> None)"
    proof (cases "fam_key l \<in> fam_key ` set ls")
      case True
      then show ?thesis by auto
    next
      case False
      with Cons.prems True show ?thesis by auto
    qed
    note r = Cons.IH [where m = ?m and i = "Suc i", OF this]
    show ?thesis by (simp add: Let_def True r)
  qed
qed

lemma build_id_map_distinct:
  "distinct (map fam_key ls) \<Longrightarrow> \<forall>l\<in>set ls. m (fam_key l) = None \<Longrightarrow>
   \<exists>m'. build_id_map m i ls = Inr m' \<and>
     (\<forall>k. k \<notin> fam_key ` set ls \<longrightarrow> m' k = m k) \<and>
     (\<forall>j<length ls. m' (fam_key (ls ! j)) = Some (int (i + j)))"
proof (induction ls arbitrary: m i)
  case Nil
  then show ?case by simp
next
  case (Cons l ls)
  let ?m = "m(fam_key l \<mapsto> int i)"
  from Cons.prems have d: "distinct (map fam_key ls)" and notin: "fam_key l \<notin> fam_key ` set ls"
    by auto
  have "\<forall>l'\<in>set ls. ?m (fam_key l') = None"
  proof
    fix l'
    assume l': "l' \<in> set ls"
    with notin have "fam_key l' \<noteq> fam_key l" by (metis image_eqI)
    moreover from Cons.prems(2) l' have "m (fam_key l') = None" by simp
    ultimately show "?m (fam_key l') = None" by simp
  qed
  from Cons.IH [where m = ?m and i = "Suc i", OF d this] obtain m' where
    m': "build_id_map ?m (Suc i) ls = Inr m'"
    "\<forall>k. k \<notin> fam_key ` set ls \<longrightarrow> m' k = ?m k"
    "\<forall>j<length ls. m' (fam_key (ls ! j)) = Some (int (Suc i + j))"
    by blast
  from Cons.prems(2) have "m (fam_key l) = None" by simp
  then have A: "build_id_map m i (l # ls) = Inr m'" by (simp add: Let_def m'(1))
  have B: "\<forall>k. k \<notin> fam_key ` set (l # ls) \<longrightarrow> m' k = m k"
    using m'(2) by auto
  have C: "m' (fam_key ((l # ls) ! j)) = Some (int (i + j))" if "j < length (l # ls)" for j
  proof (cases j)
    case 0
    with m'(2) notin show ?thesis by simp
  next
    case (Suc j')
    with that m'(3) show ?thesis by simp
  qed
  from A B C show ?case by blast
qed

lemma valid_sex_iff:
  "valid_sex l \<longleftrightarrow> (\<exists>s. py_int (sex_field l) = Some s \<and> 0 \<le> s \<and> s < 3)"
proof
  assume "valid_sex l"
  then show "\<exists>s. py_int (sex_field l) = Some s \<and> 0 \<le> s \<and> s < 3"
    unfolding valid_sex_def by auto
next
  assume "\<exists>s. py_int (sex_field l) = Some s \<and> 0 \<le> s \<and> s < 3"
  then obtain s where s: "py_int (sex_field l) = Some s" "0 \<le> s" "s < 3" by blast
  then have "s = 0 \<or> s = 1 \<or> s = 2" by arith
  with s(1) show "valid_sex l" unfolding valid_sex_def by auto
qed

lemma add_rows_invalid_sex: "\<exists>l\<in>set ls. \<not> valid_sex l \<Longrightarrow> isl (add_rows m ls)"
proof (induction ls)
  case Nil
  then show ?case by simp
next
  case (Cons l ls)
  show ?case
  proof (cases "valid_sex l")
    case False
    then show ?thesis
      by (auto simp: valid_sex_iff split: option.splits)
  next
    case True
    with Cons.prems have "\<exists>l\<in>set ls. \<not> valid_sex l" by simp
    from Cons.IH [OF this] show ?thesis
      by (auto split: option.splits sum.splits)
  qed
qed

lemma add_rows_missing_key:
  "\<exists>l\<in>set ls. m (pat_id l) = None \<or> m (mat_id l) = None \<Longrightarrow> isl (add_rows m ls)"
proof (induction ls)
  case Nil
  then show ?case by simp
next
  case (Cons l ls)
  show ?case
  proof (cases "m (pat_id l) = None \<or> m (mat_id l) = None")
    case True
    then show ?thesis by (auto split: option.splits)
  next
    case False
    with Cons.prems have "\<exists>l\<in>set ls. m (pat_id l) = None \<or> m (mat_id l) = None" by simp
    from Cons.IH [OF this] show ?thesis
      by (auto split: option.splits sum.splits)
  qed
qed

lemma add_rows_KeyError:
  "\<forall>l\<in>set ls. valid_sex l \<Longrightarrow>
   \<exists>l\<in>set ls. m (pat_id l) = None \<or> m (mat_id l) = None \<Longrightarrow>
   add_rows m ls = Inl KeyError"
proof (induction ls)
  case Nil
  then show ?case by simp
next
  case (Cons l ls)
  from Cons.prems(1) obtain s where s: "py_int (sex_field l) = Some s" "0 \<le> s" "s < 3"
    by (auto simp: valid_sex_iff)
  show ?case
  proof (cases "m (pat_id l) = None \<or> m (mat_id l) = None")
    case True
    with s show ?thesis by (auto split: option.splits)
  next
    case False
    with Cons.prems have "\<exists>l\<in>set ls. m (pat_id l) = None \<or> m (mat_id l) = None" by simp
    from Cons.IH [OF _ this] Cons.prems(1) have "add_rows m ls = Inl KeyError" by simp
    with s False show ?thesis by auto
  qed
qed

lemma add_rows_Inr:
  "add_rows m ls = Inr out \<Longrightarrow>
   length out = length ls \<and>
   (\<forall>j<length ls. m (pat_id (ls ! j)) = Some (entry_parents (out ! j) ! 0) \<and>
                    m (mat_id (ls ! j)) = Some (entry_parents (out ! j) ! 1))"
proof (induction ls arbitrary: out)
  case Nil
  then show ?case by simp
next
  case (Cons l ls)
  from Cons.prems obtain s p q out' where
    parts: "m (pat_id l) = Some p" "m (mat_id l) = Some q" "add_rows m ls = Inr out'"
    "out = \<lparr>entry_parents = [p, q], plink_fid = fst l, plink_iid = fst (snd l),
            plink_sex = s\<rparr> # out'"
    by (auto split: option.splits if_splits sum.splits)
  from Cons.IH [OF parts(3)]
  have ih: "length out' = length ls"
    "\<forall>j<length ls. m (pat_id (ls ! j)) = Some (entry_parents (out' ! j) ! 0) \<and>
                     m (mat_id (ls ! j)) = Some (entry_parents (out' ! j) ! 1)"
    by blast+
  have "m (pat_id ((l # ls) ! j)) = Some (entry_parents (out ! j) ! 0) \<and>
        m (mat_id ((l # ls) ! j)) = Some (entry_parents (out ! j) ! 1)"
    if "j < length (l # ls)" for j
  proof (cases j)
    case 0
    with parts show ?thesis by simp
  next
    case (Suc j')
    with that ih(2) parts(4) show ?thesis by simp
  qed
  with ih(1) parts(4) show ?case by simp
qed

lemma plink_key_not_zero: "plink_key fid x \<noteq> ''0''"
  by (cases fid) (auto simp: plink_key_def)

text \<open>The map the second loop reads, when the PLINK IDs are distinct.\<close>

lemma id_map_lookup:
  assumes "distinct (map fam_key ls)"
  shows "\<exists>m. build_id_map Map.empty 0 ls = Inr m \<and>
           (m(''0'' \<mapsto> -1)) ''0'' = Some (-1) \<and>
           (\<forall>fid x. plink_key fid x \<notin> fam_key ` set ls \<longrightarrow>
                     (m(''0'' \<mapsto> -1)) (plink_key fid x) = None) \<and>
           (\<forall>fid x v. (m(''0'' \<mapsto> -1)) (plink_key fid x) = Some v \<longrightarrow>
                     (\<exists>j<length ls. fam_key (ls ! j) = plink_key fid x \<and> v = int j))"
proof -
  from build_id_map_distinct [OF assms, of Map.empty 0] obtain m where
    m: "build_id_map Map.empty 0 ls = Inr m"
    "\<forall>k. k \<notin> fam_key ` set ls \<longrightarrow> m k = None"
    "\<forall>j<length ls. m (fam_key (ls ! j)) = Some (int j)"
    by auto
  have A: "(m(''0'' \<mapsto> -1)) (plink_key fid x) = None"
    if "plink_key fid x \<notin> fam_key ` set ls" for fid x
    using that m(2) plink_key_not_zero [of fid x] by simp
  have B: "\<exists>j<length ls. fam_key (ls ! j) = plink_key fid x \<and> v = int j"
    if v: "(m(''0'' \<mapsto> -1)) (plink_key fid x) = Some v" for fid x v
  proof -
    from v plink_key_not_zero [of fid x] have mv: "m (plink_key fid x) = Some v" by simp
    with m(2) have "plink_key fid x \<in> fam_key ` set ls" by force
    then obtain j where j: "j < length ls" "fam_key (ls ! j) = plink_key fid x"
      by (auto simp: in_set_conv_nth)
    from m(3) j(1) have "m (fam_key (ls ! j)) = Some (int j)" by blast
    with j(2) mv have "v = int j" by simp
    with j show ?thesis by blast
  qed
  from m(1) A B show ?thesis by simp
qed

lemma unresolved_iff:
  assumes "m ''0'' = Some z"
    and "\<forall>fid x. (m (plink_key fid x) = None) = (plink_key fid x \<notin> fam_key ` set ls)"
  shows "unresolved ls l \<longleftrightarrow> (m (pat_id l) = None \<or> m (mat_id l) = None)"
proof -
  obtain fid iid pat mat sx where l: "l = (fid, iid, pat, mat, sx)" by (cases l)
  show ?thesis
    unfolding l unresolved_def pat_id_def mat_id_def using assms by auto
qed

lemma parse_fam_duplicate:
  "\<not> distinct (map fam_key ls) \<Longrightarrow> parse_fam ls = Inl (ValueError DuplicatePlinkId)"
  by (simp add: parse_fam_def build_id_map_duplicate)

lemma parse_fam_distinct:
  assumes "distinct (map fam_key ls)"
  shows "\<exists>m. parse_fam ls = add_rows m ls \<and> m ''0'' = Some (-1) \<and>
           (\<forall>fid x. (m (plink_key fid x) = None) = (plink_key fid x \<notin> fam_key ` set ls)) \<and>
           (\<forall>fid x v. m (plink_key fid x) = Some v \<longrightarrow>
                     (\<exists>j<length ls. fam_key (ls ! j) = plink_key fid x \<and> v = int j))"
proof -
  from id_map_lookup [OF assms] obtain m0 where
    m0: "build_id_map Map.empty 0 ls = Inr m0"
    "(m0(''0'' \<mapsto> -1)) ''0'' = Some (-1)"
    "\<forall>fid x. plink_key fid x \<notin> fam_key ` set ls \<longrightarrow>
               (m0(''0'' \<mapsto> -1)) (plink_key fid x) = None"
    "\<forall>fid x v. (m0(''0'' \<mapsto> -1)) (plink_key fid x) = Some v \<longrightarrow>
               (\<exists>j<length ls. fam_key (ls ! j) = plink_key fid x \<and> v = int j)"
    by blast
  let ?m = "m0(''0'' \<mapsto> -1)"
  have "(?m (plink_key fid x) = None) = (plink_key fid x \<notin> fam_key ` set ls)" for fid x
  proof
    assume n: "?m (plink_key fid x) = None"
    show "plink_key fid x \<notin> fam_key ` set ls"
    proof
      assume "plink_key fid x \<in> fam_key ` set ls"
      then obtain j where j: "j < length ls" "fam_key (ls ! j) = plink_key fid x"
        by (auto simp: in_set_conv_nth)
      from build_id_map_distinct [OF assms, of Map.empty 0] m0(1) j(1)
      have "m0 (fam_key (ls ! j)) = Some (int j)" by auto
      with j(2) n plink_key_not_zero [of fid x] show False by simp
    qed
  next
    assume "plink_key fid x \<notin> fam_key ` set ls"
    with m0(3) show "?m (plink_key fid x) = None" by blast
  qed
  moreover have "parse_fam ls = add_rows ?m ls" by (simp add: parse_fam_def m0(1))
  ultimately show ?thesis using m0(2,4) by blast
qed

lemma parse_fam_invalid_sex:
  assumes "\<exists>l\<in>set ls. \<not> valid_sex l"
  shows "isl (parse_fam ls)"
proof (cases "distinct (map fam_key ls)")
  case False
  then show ?thesis by (simp add: parse_fam_duplicate)
next
  case True
  from parse_fam_distinct [OF True] obtain m where "parse_fam ls = add_rows m ls" by blast
  with add_rows_invalid_sex [OF assms, of m] show ?thesis by simp
qed

lemma parse_fam_unresolved:
  assumes "\<exists>l\<in>set ls. unresolved ls l"
  shows "isl (parse_fam ls)"
    and "distinct (map fam_key ls) \<Longrightarrow> \<forall>l\<in>set ls. valid_sex l \<Longrightarrow> parse_fam ls = Inl KeyError"
proof -
  show "isl (parse_fam ls)"
  proof (cases "distinct (map fam_key ls)")
    case False
    then show ?thesis by (simp add: parse_fam_duplicate)
  next
    case True
    from parse_fam_distinct [OF True] obtain m where
      m: "parse_fam ls = add_rows m ls" "m ''0'' = Some (-1)"
      "\<forall>fid x. (m (plink_key fid x) = None) = (plink_key fid x \<notin> fam_key ` set ls)"
      by blast
    from assms unresolved_iff [OF m(2,3)]
    have "\<exists>l\<in>set ls. m (pat_id l) = None \<or> m (mat_id l) = None" by blast
    from add_rows_missing_key [OF this] m(1) show ?thesis by simp
  qed
  assume d: "distinct (map fam_key ls)" and v: "\<forall>l\<in>set ls. valid_sex l"
  from parse_fam_distinct [OF d] obtain m where
    m: "parse_fam ls = add_rows m ls" "m ''0'' = Some (-1)"
    "\<forall>fid x. (m (plink_key fid x) = None) = (plink_key fid x \<notin> fam_key ` set ls)"
    by blast
  from assms unresolved_iff [OF m(2,3)]
  have "\<exists>l\<in>set ls. m (pat_id l) = None \<or> m (mat_id l) = None" by blast
  from add_rows_KeyError [OF v this] m(1) show "parse_fam ls = Inl KeyError" by simp
qed

lemma parse_fam_parents:
  assumes ok: "parse_fam ls = Inr out" and j: "j < length ls"
    and l: "ls ! j = (fid, iid, pat, mat, sx)"
  shows "length out = length ls"
    and "pat = ''0'' \<Longrightarrow> entry_parents (out ! j) ! 0 = -1"
    and "mat = ''0'' \<Longrightarrow> entry_parents (out ! j) ! 1 = -1"
    and "pat \<noteq> ''0'' \<Longrightarrow> \<exists>i<length ls. fam_key (ls ! i) = plink_key fid pat \<and>
                                entry_parents (out ! j) ! 0 = int i"
    and "mat \<noteq> ''0'' \<Longrightarrow> \<exists>i<length ls. fam_key (ls ! i) = plink_key fid mat \<and>
                                entry_parents (out ! j) ! 1 = int i"
proof -
  have d: "distinct (map fam_key ls)"
  proof (rule ccontr)
    assume "\<not> distinct (map fam_key ls)"
    from parse_fam_duplicate [OF this] ok show False by simp
  qed
  from parse_fam_distinct [OF d] obtain m where
    m: "parse_fam ls = add_rows m ls" "m ''0'' = Some (-1)"
    "\<forall>fid x v. m (plink_key fid x) = Some v \<longrightarrow>
                     (\<exists>j<length ls. fam_key (ls ! j) = plink_key fid x \<and> v = int j)"
    by blast
  from m(1) ok have "add_rows m ls = Inr out" by simp
  from add_rows_Inr [OF this] j
  have len: "length out = length ls"
    and p: "m (pat_id (ls ! j)) = Some (entry_parents (out ! j) ! 0)"
    and q: "m (mat_id (ls ! j)) = Some (entry_parents (out ! j) ! 1)"
    by blast+
  show "length out = length ls" by (rule len)
  show "entry_parents (out ! j) ! 0 = -1" if "pat = ''0''"
    using p m(2) that unfolding l pat_id_def by simp
  show "entry_parents (out ! j) ! 1 = -1" if "mat = ''0''"
    using q m(2) that unfolding l mat_id_def by simp
  show "\<exists>i<length ls. fam_key (ls ! i) = plink_key fid pat \<and> entry_parents (out ! j) ! 0 = int i"
    if "pat \<noteq> ''0''"
  proof -
    from p that have "m (plink_key fid pat) = Some (entry_parents (out ! j) ! 0)"
      unfolding l pat_id_def by simp
    with m(3) show ?thesis by blast
  qed
  show "\<exists>i<length ls. fam_key (ls ! i) = plink_key fid mat \<and> entry_parents (out ! j) ! 1 = int i"
    if "mat \<noteq> ''0''"
  proof -
    from q that have "m (plink_key fid mat) = Some (entry_parents (out ! j) ! 1)"
      unfolding l mat_id_def by simp
    with m(3) show ?thesis by blast
  qed
qed

text \<open>
  C8. \<open>parse_fam\<close> raises on an input in which two rows have the same family-id and
  individual-id key, and on an input with a row whose sex code is not 0, 1 or 2. It
  raises on an input with a parent field other than \<open>0\<close> whose key is the key of no row,
  and that error is a KeyError when the keys are distinct and the sex codes valid. In
  what it returns, a parent field \<open>0\<close> has become \<open>-1\<close>, and any other parent field the
  index of the row with that key.
\<close>

theorem parse_fam_errors:
  "(\<not> distinct (map fam_key ls) \<longrightarrow> parse_fam ls = Inl (ValueError DuplicatePlinkId)) \<and>
   ((\<exists>l\<in>set ls. \<not> valid_sex l) \<longrightarrow> isl (parse_fam ls)) \<and>
   ((\<exists>l\<in>set ls. unresolved ls l) \<longrightarrow> isl (parse_fam ls) \<and>
      (distinct (map fam_key ls) \<and> (\<forall>l\<in>set ls. valid_sex l) \<longrightarrow> parse_fam ls = Inl KeyError)) \<and>
   (\<forall>out j fid iid pat mat sx.
      parse_fam ls = Inr out \<and> j < length ls \<and> ls ! j = (fid, iid, pat, mat, sx) \<longrightarrow>
        length out = length ls \<and>
        (if pat = ''0'' then entry_parents (out ! j) ! 0 = -1
         else \<exists>i<length ls. fam_key (ls ! i) = plink_key fid pat \<and>
                entry_parents (out ! j) ! 0 = int i) \<and>
        (if mat = ''0'' then entry_parents (out ! j) ! 1 = -1
         else \<exists>i<length ls. fam_key (ls ! i) = plink_key fid mat \<and>
                entry_parents (out ! j) ! 1 = int i))"
proof (intro conjI impI allI)
  assume "\<not> distinct (map fam_key ls)"
  then show "parse_fam ls = Inl (ValueError DuplicatePlinkId)" by (rule parse_fam_duplicate)
next
  assume "\<exists>l\<in>set ls. \<not> valid_sex l"
  then show "isl (parse_fam ls)" by (rule parse_fam_invalid_sex)
next
  assume "\<exists>l\<in>set ls. unresolved ls l"
  then show "isl (parse_fam ls)" by (rule parse_fam_unresolved(1))
next
  assume "\<exists>l\<in>set ls. unresolved ls l"
    and "distinct (map fam_key ls) \<and> (\<forall>l\<in>set ls. valid_sex l)"
  then show "parse_fam ls = Inl KeyError" using parse_fam_unresolved(2) by blast
next
  fix out j fid iid pat mat sx
  assume a: "parse_fam ls = Inr out \<and> j < length ls \<and> ls ! j = (fid, iid, pat, mat, sx)"
  then have ok: "parse_fam ls = Inr out" and j: "j < length ls"
    and l: "ls ! j = (fid, iid, pat, mat, sx)" by blast+
  note r = parse_fam_parents [OF ok j l]
  show "length out = length ls" by (rule r(1))
  show "if pat = ''0'' then entry_parents (out ! j) ! 0 = -1
         else \<exists>i<length ls. fam_key (ls ! i) = plink_key fid pat \<and>
                entry_parents (out ! j) ! 0 = int i"
    using r(2,4) by simp
  show "if mat = ''0'' then entry_parents (out ! j) ! 1 = -1
         else \<exists>i<length ls. fam_key (ls ! i) = plink_key fid mat \<and>
                entry_parents (out ! j) ! 1 = int i"
    using r(3,5) by simp
qed

theorem parse_fam_errors_witness:
  "\<not> distinct (map fam_key fam_duplicate) \<and>
   parse_fam fam_duplicate = Inl (ValueError DuplicatePlinkId) \<and>
   \<not> valid_sex (''F1'', ''1'', ''0'', ''0'', ''3'') \<and> isl (parse_fam fam_bad_sex) \<and>
   unresolved fam_broken (''F1'', ''2'', ''9'', ''0'', ''2'') \<and>
   distinct (map fam_key fam_broken) \<and> parse_fam fam_broken = Inl KeyError \<and>
   parse_fam fam_trio =
     Inr [\<lparr>entry_parents = [-1, -1], plink_fid = ''F1'', plink_iid = ''1'', plink_sex = 1\<rparr>,
          \<lparr>entry_parents = [-1, -1], plink_fid = ''F1'', plink_iid = ''2'', plink_sex = 2\<rparr>,
          \<lparr>entry_parents = [0, 1], plink_fid = ''F1'', plink_iid = ''3'', plink_sex = 0\<rparr>] \<and>
   length (projr (parse_fam fam_trio)) = length fam_trio \<and>
   entry_parents (projr (parse_fam fam_trio) ! 0) ! 0 = -1"
proof -
  have d: "\<not> distinct (map fam_key fam_duplicate)"
    by (simp add: fam_duplicate_def fam_key_def)
  from parse_fam_errors [of fam_duplicate] d
  have A: "parse_fam fam_duplicate = Inl (ValueError DuplicatePlinkId)" by blast
  have s: "\<not> valid_sex (''F1'', ''1'', ''0'', ''0'', ''3'')"
    by (simp add: valid_sex_def sex_field_def py_int_def digit_val_def)
  then have "\<exists>l\<in>set fam_bad_sex. \<not> valid_sex l" by (simp add: fam_bad_sex_def)
  with parse_fam_errors [of fam_bad_sex] have B: "isl (parse_fam fam_bad_sex)" by blast
  have u: "unresolved fam_broken (''F1'', ''2'', ''9'', ''0'', ''2'')"
    by (simp add: unresolved_def fam_broken_def fam_key_def plink_key_def)
  then have u': "\<exists>l\<in>set fam_broken. unresolved fam_broken l" by (simp add: fam_broken_def)
  have db: "distinct (map fam_key fam_broken)"
    by (simp add: fam_broken_def fam_key_def plink_key_def)
  have vb: "\<forall>l\<in>set fam_broken. valid_sex l"
    by (simp add: fam_broken_def valid_sex_def sex_field_def py_int_def digit_val_def)
  from parse_fam_errors [of fam_broken] u' db vb
  have C: "parse_fam fam_broken = Inl KeyError" by blast
  have T: "parse_fam fam_trio =
     Inr [\<lparr>entry_parents = [-1, -1], plink_fid = ''F1'', plink_iid = ''1'', plink_sex = 1\<rparr>,
          \<lparr>entry_parents = [-1, -1], plink_fid = ''F1'', plink_iid = ''2'', plink_sex = 2\<rparr>,
          \<lparr>entry_parents = [0, 1], plink_fid = ''F1'', plink_iid = ''3'', plink_sex = 0\<rparr>]"
    by (simp add: fam_trio_def parse_fam_def fam_key_def plink_key_def pat_id_def mat_id_def
          sex_field_def py_int_def digit_val_def)
  have t0: "parse_fam fam_trio = Inr (projr (parse_fam fam_trio)) \<and> 0 < length fam_trio \<and>
            fam_trio ! 0 = (''F1'', ''1'', ''0'', ''0'', ''1'')"
    by (simp add: T) (simp add: fam_trio_def)
  from parse_fam_errors [of fam_trio] t0
  have D: "length (projr (parse_fam fam_trio)) = length fam_trio \<and>
           (if ''0'' = ''0'' then entry_parents (projr (parse_fam fam_trio) ! 0) ! 0 = -1
            else \<exists>i<length fam_trio. fam_key (fam_trio ! i) = plink_key ''F1'' ''0'' \<and>
                   entry_parents (projr (parse_fam fam_trio) ! 0) ! 0 = int i)"
    by blast
  then have D': "length (projr (parse_fam fam_trio)) = length fam_trio"
    "entry_parents (projr (parse_fam fam_trio) ! 0) ! 0 = -1" by simp_all
  from d A s B u db C T D' show ?thesis by blast
qed


subsection \<open>Array and text files\<close>

lemma map_zip_nth:
  "length xs = length ys \<Longrightarrow>
   map (\<lambda>(x, y). f x y) (zip xs ys) = map (\<lambda>i. f (xs ! i) (ys ! i)) [0..<length xs]"
  by (rule nth_equalityI) simp_all

lemma broadcast_same:
  "length vals = n \<Longrightarrow> (if length vals = 1 then replicate n (hd vals) else vals) = vals"
  by (cases vals) auto

lemma set_col_ok:
  assumes "c < ncols m" and "length vals = length (rows m)"
  shows "set_col c vals m =
           Inr (m\<lparr>rows := map (\<lambda>i. (rows m ! i)[c := vals ! i]) [0..<length (rows m)]\<rparr>)"
proof -
  have "map (\<lambda>(r, v). r[c := v]) (zip (rows m) vals) =
        map (\<lambda>i. (rows m ! i)[c := vals ! i]) [0..<length (rows m)]"
    using assms(2) by (intro map_zip_nth) simp
  with assms show ?thesis
    unfolding set_col_def Let_def broadcast_same [OF assms(2)] by simp
qed

lemma set_cols_ok:
  assumes "\<forall>c\<in>set cs. c < ncols m" and "ncols v = length cs"
    and "length (rows v) = length (rows m)"
  shows "set_cols cs v m =
           Inr (m\<lparr>rows := map (\<lambda>i. fold (\<lambda>(c, x) r'. r'[c := x]) (zip cs (rows v ! i)) (rows m ! i))
                            [0..<length (rows m)]\<rparr>)"
proof -
  have "map (\<lambda>(r, vr). fold (\<lambda>(c, x) r'. r'[c := x]) (zip cs vr) r) (zip (rows m) (rows v)) =
        map (\<lambda>i. fold (\<lambda>(c, x) r'. r'[c := x]) (zip cs (rows v ! i)) (rows m ! i))
          [0..<length (rows m)]"
    using assms(3) by (intro map_zip_nth) simp
  moreover have "\<not> (\<exists>c\<in>set cs. ncols m \<le> c)" using assms(1) by auto
  ultimately show ?thesis
    unfolding set_cols_def Let_def broadcast_same [OF assms(3)] using assms(2,3) by simp
qed

lemma set_cols_mismatch:
  assumes "length (rows v) \<noteq> 1" and "length (rows v) \<noteq> length (rows m)"
  shows "isl (set_cols cs v m)"
  using assms unfolding set_cols_def Let_def by simp

lemma set_col_shape:
  "set_col c vals m = Inr m' \<Longrightarrow> length (rows m') = length (rows m) \<and> ncols m' = ncols m"
  unfolding set_col_def Let_def by (auto split: if_splits)

lemma set_cols_shape:
  "set_cols cs v m = Inr m' \<Longrightarrow> length (rows m') = length (rows m) \<and> ncols m' = ncols m"
  unfolding set_cols_def Let_def by (auto split: if_splits)

lemma build_array_shape:
  assumes "build_array ped = Inr m"
  shows "length (rows m) = num_individuals ped"
proof -
  from assms obtain a1 a2 where
    a1: "set_col 0 (map real_of_int (individual ped)) (np_zeros (num_individuals ped) 4) = Inr a1"
    and a2: "set_cols [1, 2] \<lparr>ncols = ncols (parents ped),
                 rows = map (map real_of_int) (rows (parents ped))\<rparr> a1 = Inr a2"
    and a3: "set_col 3 (time ped) a2 = Inr m"
    unfolding build_array_def default_format_def column_numbers_def opt_list_def Let_def
    by (auto split: if_splits sum.splits)
  from set_col_shape [OF a1] set_cols_shape [OF a2] set_col_shape [OF a3]
  show ?thesis by (simp add: np_zeros_def)
qed

lemma map_err_length: "map_err f xs = Inr ys \<Longrightarrow> length ys = length xs"
  by (induction xs arbitrary: ys) (auto split: sum.splits)

lemma parent_index_to_ID_shape:
  "parent_index_to_ID ids ps = Inr r \<Longrightarrow> length (rows r) = length (rows ps)"
  unfolding parent_index_to_ID_def by (auto split: sum.splits dest: map_err_length)

text \<open>
  \<open>save_txt\<close> takes the first four rows of the matrix where it means its four columns, so
  it raises on every pedigree that does not have exactly four individuals.
\<close>

lemma save_txt_fails:
  assumes n: "num_individuals ped \<noteq> 4"
    and p: "length (rows (parents ped)) = num_individuals ped"
  shows "isl (save_txt ped)"
proof (cases "build_array ped")
  case (Inl e)
  then show ?thesis by (simp add: save_txt_def)
next
  case (Inr m)
  note len = build_array_shape [OF Inr]
  show ?thesis
  proof (cases "num_individuals ped < 4")
    case True
    with len have "take_rows [0, 1, 2, 3] m = Inl IndexError"
      by (simp add: take_rows_def)
    with Inr show ?thesis
      by (simp add: save_txt_def default_format_def Let_def)
  next
    case False
    with len have t: "take_rows [0, 1, 2, 3] m = Inr (m\<lparr>rows := map (\<lambda>i. rows m ! i) [0, 1, 2, 3]\<rparr>)"
      by (simp add: take_rows_def)
    show ?thesis
    proof (cases "parent_index_to_ID (individual ped) (parents ped)")
      case (Inl e)
      with Inr t show ?thesis
        by (simp add: save_txt_def default_format_def Let_def)
    next
      case (Inr pid)
      from parent_index_to_ID_shape [OF Inr] p False n
      have "length (rows pid) \<noteq> 1" "length (rows pid) \<noteq> 4" by simp_all
      then have "isl (set_cols [1, 2] \<lparr>ncols = ncols pid, rows = map (map real_of_int) (rows pid)\<rparr>
                   (m\<lparr>rows := map (\<lambda>i. rows m ! i) [0, 1, 2, 3]\<rparr>))"
        by (intro set_cols_mismatch) simp_all
      with \<open>build_array ped = Inr m\<close> t Inr show ?thesis
        by (auto simp: save_txt_def default_format_def Let_def split: sum.splits)
    qed
  qed
qed

lemma trunc_of_int: "trunc (real_of_int x) = x"
  by (simp add: trunc_def)

lemma wrap32_in_range: "- (2 ^ 31) \<le> x \<Longrightarrow> x < 2 ^ 31 \<Longrightarrow> wrap32 x = x"
  unfolding wrap32_def by (simp add: mod_pos_pos_trivial)

lemma pair_row: "length r = 2 \<Longrightarrow> [r ! 0, r ! 1] = r"
  by (cases r; cases "tl r") auto

text \<open>The matrix of a valid pedigree, row by row.\<close>

lemma build_array_valid:
  assumes v: "valid_pedigree ped"
  shows "build_array ped =
           Inr \<lparr>ncols = 4,
                rows = map (\<lambda>i. [real_of_int (individual ped ! i),
                                 real_of_int (rows (parents ped) ! i ! 0),
                                 real_of_int (rows (parents ped) ! i ! 1),
                                 time ped ! i])
                         [0..<length (individual ped)]\<rparr>"
proof -
  let ?n = "length (individual ped)"
  let ?ps = "rows (parents ped)"
  from v have ni: "num_individuals ped = ?n" and lt: "length (time ped) = ?n"
    and lp: "length ?ps = ?n" and nc: "ncols (parents ped) = 2"
    and two: "list_all (\<lambda>r. length r = 2) ?ps"
    unfolding valid_pedigree_def by blast+
  let ?z = "np_zeros ?n 4"
  let ?a1 = "?z\<lparr>rows := map (\<lambda>i. [real_of_int (individual ped ! i), 0, 0, 0]) [0..<?n]\<rparr>"
  let ?pv = "\<lparr>ncols = ncols (parents ped), rows = map (map real_of_int) ?ps\<rparr>"
  let ?a2 = "?z\<lparr>rows := map (\<lambda>i. [real_of_int (individual ped ! i),
                                    real_of_int (?ps ! i ! 0), real_of_int (?ps ! i ! 1), 0])
                            [0..<?n]\<rparr>"
  let ?a3 = "?z\<lparr>rows := map (\<lambda>i. [real_of_int (individual ped ! i),
                                    real_of_int (?ps ! i ! 0), real_of_int (?ps ! i ! 1),
                                    time ped ! i])
                            [0..<?n]\<rparr>"
  have zr: "rows ?z ! i = [0, 0, 0, 0]" if "i < ?n" for i
    using that by (simp add: np_zeros_def numeral_eq_Suc)
  have s1: "set_col 0 (map real_of_int (individual ped)) ?z = Inr ?a1"
  proof -
    have "set_col 0 (map real_of_int (individual ped)) ?z =
            Inr (?z\<lparr>rows := map (\<lambda>i. (rows ?z ! i)[0 := map real_of_int (individual ped) ! i])
                               [0..<length (rows ?z)]\<rparr>)"
      by (rule set_col_ok) (simp_all add: np_zeros_def)
    moreover have "map (\<lambda>i. (rows ?z ! i)[0 := map real_of_int (individual ped) ! i])
                     [0..<length (rows ?z)] =
                   map (\<lambda>i. [real_of_int (individual ped ! i), 0, 0, 0]) [0..<?n]"
      by (rule nth_equalityI) (simp_all add: np_zeros_def numeral_eq_Suc)
    ultimately show ?thesis by simp
  qed
  have s2: "set_cols [1, 2] ?pv ?a1 = Inr ?a2"
  proof -
    have "set_cols [1, 2] ?pv ?a1 =
            Inr (?a1\<lparr>rows := map (\<lambda>i. fold (\<lambda>(c, x) r'. r'[c := x]) (zip [1, 2] (rows ?pv ! i))
                                       (rows ?a1 ! i)) [0..<length (rows ?a1)]\<rparr>)"
      by (rule set_cols_ok) (simp_all add: np_zeros_def nc lp)
    moreover have "map (\<lambda>i. fold (\<lambda>(c, x) r'. r'[c := x]) (zip [1, 2] (rows ?pv ! i))
                                       (rows ?a1 ! i)) [0..<length (rows ?a1)] =
                   map (\<lambda>i. [real_of_int (individual ped ! i),
                             real_of_int (?ps ! i ! 0), real_of_int (?ps ! i ! 1), 0]) [0..<?n]"
    proof (rule nth_equalityI)
      show "length (map (\<lambda>i. fold (\<lambda>(c, x) r'. r'[c := x]) (zip [1, 2] (rows ?pv ! i))
                                       (rows ?a1 ! i)) [0..<length (rows ?a1)]) =
            length (map (\<lambda>i. [real_of_int (individual ped ! i),
                             real_of_int (?ps ! i ! 0), real_of_int (?ps ! i ! 1), 0]) [0..<?n])"
        by simp
    next
      fix i
      assume "i < length (map (\<lambda>i. fold (\<lambda>(c, x) r'. r'[c := x]) (zip [1, 2] (rows ?pv ! i))
                                       (rows ?a1 ! i)) [0..<length (rows ?a1)])"
      then have i: "i < ?n" by simp
      with two lp have "length (?ps ! i) = 2" by (simp add: list_all_length)
      then have r: "?ps ! i = [?ps ! i ! 0, ?ps ! i ! 1]" by (rule pair_row [symmetric])
      have "map real_of_int (?ps ! i) = [real_of_int (?ps ! i ! 0), real_of_int (?ps ! i ! 1)]"
        by (subst r) simp
      with i lp show "map (\<lambda>i. fold (\<lambda>(c, x) r'. r'[c := x]) (zip [1, 2] (rows ?pv ! i))
                                       (rows ?a1 ! i)) [0..<length (rows ?a1)] ! i =
            map (\<lambda>i. [real_of_int (individual ped ! i),
                             real_of_int (?ps ! i ! 0), real_of_int (?ps ! i ! 1), 0]) [0..<?n] ! i"
        by (simp add: numeral_2_eq_2)
    qed
    ultimately show ?thesis by simp
  qed
  have s3: "set_col 3 (time ped) ?a2 = Inr ?a3"
  proof -
    have "set_col 3 (time ped) ?a2 =
            Inr (?a2\<lparr>rows := map (\<lambda>i. (rows ?a2 ! i)[3 := time ped ! i])
                               [0..<length (rows ?a2)]\<rparr>)"
      by (rule set_col_ok) (simp_all add: np_zeros_def lt)
    moreover have "map (\<lambda>i. (rows ?a2 ! i)[3 := time ped ! i]) [0..<length (rows ?a2)] =
                   map (\<lambda>i. [real_of_int (individual ped ! i),
                             real_of_int (?ps ! i ! 0), real_of_int (?ps ! i ! 1),
                             time ped ! i]) [0..<?n]"
      by (rule nth_equalityI) (simp_all add: numeral_3_eq_3)
    ultimately show ?thesis by simp
  qed
  have "build_array ped = Inr ?a3"
    unfolding build_array_def default_format_def column_numbers_def opt_list_def Let_def
    using s1 s2 s3 ni by simp
  then show ?thesis by (simp add: np_zeros_def)
qed

lemma np_min_positive_ids:
  assumes "xs \<noteq> []" and "list_all (\<lambda>x. 0 < x) xs"
  shows "\<exists>m. np_min (map real_of_int xs) = Inr m \<and> \<not> m \<le> 0"
proof -
  from assms have "map real_of_int xs \<noteq> []" "\<forall>x\<in>set (map real_of_int xs). 0 < x"
    by (auto simp: list_all_iff)
  with np_min_positive [of "map real_of_int xs"] show ?thesis by blast
qed

text \<open>
  The binary format: what \<open>save_npy\<close> writes of a valid pedigree, \<open>read_npy\<close> reads back
  with the same identifiers, parents and times.
\<close>

lemma npy_round_trip:
  assumes v: "valid_pedigree ped"
  shows "\<exists>m ped'. save_npy ped = Inr m \<and> read_npy m = Inr ped' \<and>
           individual ped' = individual ped \<and> parents ped' = parents ped \<and>
           time ped' = time ped"
proof -
  let ?n = "length (individual ped)"
  let ?ps = "rows (parents ped)"
  let ?m = "\<lparr>ncols = 4,
             rows = map (\<lambda>i. [real_of_int (individual ped ! i), real_of_int (?ps ! i ! 0),
                              real_of_int (?ps ! i ! 1), time ped ! i]) [0..<?n]\<rparr>"
  from v have ne: "individual ped \<noteq> []" and lt: "length (time ped) = ?n"
    and lp: "length ?ps = ?n" and nc: "ncols (parents ped) = 2"
    and two: "list_all (\<lambda>r. length r = 2) ?ps"
    and ids: "list_all (\<lambda>x. 0 < x \<and> x < 2 ^ 31) (individual ped)"
    and prange: "list_all (list_all (\<lambda>p. - (2 ^ 31) \<le> p \<and> p < 2 ^ 31)) ?ps"
    unfolding valid_pedigree_def by blast+
  have save: "save_npy ped = Inr ?m"
    unfolding save_npy_def by (rule build_array_valid [OF v])
  have c0: "column 0 ?m = Inr (map real_of_int (individual ped))"
    unfolding column_def by (simp add: map_nth)
      (rule nth_equalityI, simp_all)
  have c1: "column 1 ?m = Inr (map (\<lambda>i. real_of_int (?ps ! i ! 0)) [0..<?n])"
    unfolding column_def by simp
  have c2: "column 2 ?m = Inr (map (\<lambda>i. real_of_int (?ps ! i ! 1)) [0..<?n])"
    unfolding column_def by (simp add: numeral_2_eq_2)
  have c3: "column 3 ?m = Inr (time ped)"
    unfolding column_def using lt by (simp add: numeral_3_eq_3)
      (rule nth_equalityI, simp_all)
  have prow: "map (\<lambda>i. map (\<lambda>pc. trunc (pc ! i))
                 [map (\<lambda>i. real_of_int (?ps ! i ! 0)) [0..<?n],
                  map (\<lambda>i. real_of_int (?ps ! i ! 1)) [0..<?n]]) [0..<?n] = ?ps"
  proof (rule nth_equalityI)
    show "length (map (\<lambda>i. map (\<lambda>pc. trunc (pc ! i))
                 [map (\<lambda>i. real_of_int (?ps ! i ! 0)) [0..<?n],
                  map (\<lambda>i. real_of_int (?ps ! i ! 1)) [0..<?n]]) [0..<?n]) = length ?ps"
      using lp by simp
  next
    fix i
    assume "i < length (map (\<lambda>i. map (\<lambda>pc. trunc (pc ! i))
                 [map (\<lambda>i. real_of_int (?ps ! i ! 0)) [0..<?n],
                  map (\<lambda>i. real_of_int (?ps ! i ! 1)) [0..<?n]]) [0..<?n])"
    then have i: "i < ?n" by simp
    with two lp have "length (?ps ! i) = 2" by (simp add: list_all_length)
    then have "[?ps ! i ! 0, ?ps ! i ! 1] = ?ps ! i" by (rule pair_row)
    with i show "map (\<lambda>i. map (\<lambda>pc. trunc (pc ! i))
                 [map (\<lambda>i. real_of_int (?ps ! i ! 0)) [0..<?n],
                  map (\<lambda>i. real_of_int (?ps ! i ! 1)) [0..<?n]]) [0..<?n] ! i = ?ps ! i"
      by (simp add: trunc_of_int)
  qed
  from ids have pos: "list_all (\<lambda>x. 0 < x) (individual ped)" by (simp add: list_all_iff)
  from np_min_positive_ids [OF ne pos] obtain mn where
    mn: "np_min (map real_of_int (individual ped)) = Inr mn" "\<not> mn \<le> 0" by blast
  have idr: "map astype_int32 (map real_of_int (individual ped)) = individual ped"
  proof (rule nth_equalityI)
    show "length (map astype_int32 (map real_of_int (individual ped))) = length (individual ped)"
      by simp
  next
    fix i
    assume "i < length (map astype_int32 (map real_of_int (individual ped)))"
    then have i: "i < ?n" by simp
    with ids have "0 < individual ped ! i" "individual ped ! i < 2 ^ 31"
      by (simp_all add: list_all_length)
    then have "wrap32 (individual ped ! i) = individual ped ! i"
      by (intro wrap32_in_range) simp_all
    with i show "map astype_int32 (map real_of_int (individual ped)) ! i = individual ped ! i"
      by (simp add: astype_int32_def trunc_of_int)
  qed
  have pr: "map (map wrap32) ?ps = ?ps"
  proof -
    have "map wrap32 r = r" if "r \<in> set ?ps" for r
    proof -
      from prange that have "\<forall>p\<in>set r. - (2 ^ 31) \<le> p \<and> p < 2 ^ 31"
        unfolding list_all_iff by blast
      then have "\<forall>p\<in>set r. wrap32 p = p" by (simp add: wrap32_in_range)
      then show ?thesis by (simp add: map_idI)
    qed
    then show ?thesis by (simp add: map_idI)
  qed
  let ?ped' = "\<lparr>individual = individual ped, num_individuals = ?n,
               parents = \<lparr>ncols = 2, rows = ?ps\<rparr>, time = time ped, sex = None, ploidy = 2,
               is_sample = None, samples = None, num_samples = None\<rparr>"
  have "read_npy ?m = Inr ?ped'"
    unfolding read_npy_def default_format_def Let_def
    using c0 c1 c2 c3 prow mn idr pr by (simp add: init_def)
  moreover have "parents ?ped' = parents ped" using nc by simp
  ultimately show ?thesis using save by (intro exI [of _ ?m] exI [of _ ?ped']) simp
qed

subsection \<open>The file formats on concrete pedigrees\<close>

lemma replicate_4: "replicate 4 x = [x, x, x, x]"
  by (simp add: numeral_eq_Suc)

lemmas serial_eval = build_array_def default_format_def column_numbers_def opt_list_def
  np_zeros_def set_col_def set_cols_def take_rows_def Let_def save_txt_def
  parent_index_to_ID_def replicate_4 numeral_2_eq_2 numeral_3_eq_3

lemmas read_eval = read_txt_def genfromtxt_def default_format_def column_numbers_def opt_list_def
  column_def Let_def parent_ID_to_index_def dict_of_def init_def np_min_def trunc_def
  astype_int32_def wrap32_def upt_rec

text \<open>
  With exactly four individuals the first four rows are all the rows, and \<open>save_txt\<close>
  writes the file it means to write. Reading it with \<open>time_col = 3\<close> gives the pedigree
  back; reading it with the default \<open>time_col = None\<close> infers the times from the
  genealogy instead of reading them.
\<close>

lemma save_txt_two_by_two: "save_txt two_by_two = Inr two_by_two_file"
  by (simp add: serial_eval two_by_two_def two_by_two_file_def)

lemma read_txt_two_by_two_time_col:
  "read_txt two_by_two_file (Some 3) None = Some (Inr two_by_two)"
  by (simp add: read_eval two_by_two_file_def two_by_two_def)

lemma read_txt_two_by_two_default:
  "read_txt two_by_two_file None None = Some (Inr (two_by_two\<lparr>time := [0, 0, 1, 1]\<rparr>))"
  by (simp add: read_eval two_by_two_file_def two_by_two_def get_times_def probands_def
        ravel_def climb.simps)

lemma valid_examples:
  "valid_pedigree lone_founder" "valid_pedigree five_siblings" "valid_pedigree two_by_two"
  by (simp_all add: valid_pedigree_def lone_founder_def five_siblings_def two_by_two_def)

text \<open>
  C1. The round trip through the text format fails on the code: \<open>save_txt\<close> raises an
  IndexError on a valid pedigree of one individual, and a shape mismatch on a valid
  pedigree of six. (The round trip through the binary format holds, \<open>npy_round_trip\<close>.)
\<close>

theorem save_txt_raises:
  "valid_pedigree lone_founder \<and> save_txt lone_founder = Inl IndexError \<and>
   valid_pedigree five_siblings \<and> save_txt five_siblings = Inl (ValueError ShapeMismatch)"
proof -
  have "save_txt lone_founder = Inl IndexError"
    by (simp add: serial_eval lone_founder_def)
  moreover have "save_txt five_siblings = Inl (ValueError ShapeMismatch)"
    by (simp add: serial_eval five_siblings_def)
  ultimately show ?thesis using valid_examples by simp
qed


end
